theory Spec2Isabelle
  imports Main "HOL-Library.Sublist" "HOL-Library.Multiset"
begin

section \<open>Configuration constants of fir\_count.py\<close>

definition START_YEAR :: int where
  "START_YEAR = 2014"

definition END_YEAR :: int where
  "END_YEAR = 2025"

text \<open>\<^verbatim>\<open>DISTRICT_IDS = list(range(1, 39))\<close>\<close>

definition DISTRICT_IDS :: "int list" where
  "DISTRICT_IDS = [1..38]"

section \<open>Python values the script relies on\<close>

text \<open>
  Exceptions are values. Every constructor stands for a subclass of Python's
  \<^verbatim>\<open>Exception\<close>, so each of them is caught by \<^verbatim>\<open>except Exception\<close>.
  \<^verbatim>\<open>RequestException\<close> is what \<^verbatim>\<open>session.get\<close>/\<^verbatim>\<open>session.post\<close> raise once
  the adapter's retries are used up, \<^verbatim>\<open>HTTPError\<close> is what \<^verbatim>\<open>raise_for_status\<close> raises.
\<close>

datatype exn = RequestException | HTTPError | KeyError | ValueError

text \<open>
  Strings are lists of characters with the codes 0 to 255. Python's
  \<^verbatim>\<open>str.isspace\<close>, which decides both \<^verbatim>\<open>str.strip()\<close> and the regular expression
  class \<^verbatim>\<open>\s\<close>, holds among them for the codes 9 to 13, 28 to 31, 32, 0x85 and 0xA0.
  The decimal digits among them are \<^verbatim>\<open>0\<close> to \<^verbatim>\<open>9\<close>.
\<close>

definition is_space :: "char \<Rightarrow> bool" where
  "is_space c = (c \<in> {CHR 0x09, CHR 0x0A, CHR 0x0B, CHR 0x0C, CHR 0x0D,
                       CHR 0x1C, CHR 0x1D, CHR 0x1E, CHR 0x1F, CHR 0x20,
                       CHR 0x85, CHR 0xA0})"

definition is_digit :: "char \<Rightarrow> bool" where
  "is_digit c = (c \<in> set ''0123456789'')"

text \<open>\<^verbatim>\<open>str.strip()\<close>: white space removed at both ends.\<close>

definition strip :: "string \<Rightarrow> string" where
  "strip s = rev (dropWhile is_space (rev (dropWhile is_space s)))"

text \<open>\<^verbatim>\<open>sep.join(parts)\<close>\<close>

fun join :: "string \<Rightarrow> string list \<Rightarrow> string" where
  "join sep [] = []"
| "join sep [x] = x"
| "join sep (x # y # ys) = x @ sep @ join sep (y # ys)"

section \<open>The parsed page (BeautifulSoup)\<close>

text \<open>
  A parsed page is the tree \<^verbatim>\<open>BeautifulSoup(r.text, "html.parser")\<close> builds: a tag has
  a name, a dictionary of attributes (an association list read with \<open>map_of\<close>) and
  its contents in document order; a leaf is a text string. The \<^verbatim>\<open>BeautifulSoup\<close>
  object itself is a tag (named \<^verbatim>\<open>[document]\<close>) whose contents are the top-level nodes.
  A tag object is always truthy in Python, so \<^verbatim>\<open>if not el\<close> holds exactly when
  \<^verbatim>\<open>find\<close> returned \<^verbatim>\<open>None\<close>.
\<close>

datatype node = Tag string "(string \<times> string) list" "node list" | NavigableString string

type_synonym soup = node

text \<open>\<^verbatim>\<open>Tag.descendants\<close>: every node below the tag, in document order (pre-order).\<close>

fun descendants :: "node \<Rightarrow> node list" where
  "descendants (NavigableString s) = []"
| "descendants (Tag n as cs) = concat (map (\<lambda>c. c # descendants c) cs)"

fun has_name :: "string \<Rightarrow> node \<Rightarrow> bool" where
  "has_name n (Tag m as cs) = (m = n)"
| "has_name n (NavigableString s) = False"

fun attrs_of :: "node \<Rightarrow> (string \<times> string) list" where
  "attrs_of (Tag n as cs) = as"
| "attrs_of (NavigableString s) = []"

text \<open>\<^verbatim>\<open>el.has_attr(key)\<close>, \<^verbatim>\<open>el[key]\<close> (raises \<^verbatim>\<open>KeyError\<close>) and \<^verbatim>\<open>el.get(key, default)\<close>.\<close>

definition has_attr :: "node \<Rightarrow> string \<Rightarrow> bool" where
  "has_attr el k = (map_of (attrs_of el) k \<noteq> None)"

definition getitem :: "node \<Rightarrow> string \<Rightarrow> exn + string" where
  "getitem el k = (case map_of (attrs_of el) k of None \<Rightarrow> Inl KeyError | Some v \<Rightarrow> Inr v)"

definition get_attr :: "node \<Rightarrow> string \<Rightarrow> string \<Rightarrow> string" where
  "get_attr el k d = (case map_of (attrs_of el) k of None \<Rightarrow> d | Some v \<Rightarrow> v)"

text \<open>
  \<^verbatim>\<open>el.find_all(names)\<close> (a single name is the one-element list),
  \<^verbatim>\<open>el.find(name)\<close> and \<^verbatim>\<open>el.find(name, {"id": v})\<close>: the first descendant, or \<^verbatim>\<open>None\<close>.
\<close>

definition soup_find_all :: "string list \<Rightarrow> node \<Rightarrow> node list" where
  "soup_find_all names el = filter (\<lambda>c. list_ex (\<lambda>n. has_name n c) names) (descendants el)"

definition soup_find :: "string \<Rightarrow> node \<Rightarrow> node option" where
  "soup_find name el = (case soup_find_all [name] el of [] \<Rightarrow> None | x # xs \<Rightarrow> Some x)"

definition soup_find_id :: "string \<Rightarrow> string \<Rightarrow> node \<Rightarrow> node option" where
  "soup_find_id name v el =
     (case filter (\<lambda>c. map_of (attrs_of c) ''id'' = Some v) (soup_find_all [name] el) of
        [] \<Rightarrow> None
      | x # xs \<Rightarrow> Some x)"

text \<open>
  \<^verbatim>\<open>el.get_text(sep, strip=True)\<close>: the text strings below the tag in document
  order, each stripped, the empty ones dropped, joined by the separator.
\<close>

fun string_of :: "node \<Rightarrow> string list" where
  "string_of (NavigableString s) = [s]"
| "string_of (Tag n as cs) = []"

definition get_text :: "string \<Rightarrow> node \<Rightarrow> string" where
  "get_text sep el =
     join sep (filter (\<lambda>s. s \<noteq> []) (map strip (concat (map string_of (descendants el)))))"

section \<open>extract\_hidden\_fields\<close>

text \<open>
  \<^verbatim>\<open>
  def val(id_):
      el = soup.find("input", {"id": id_})
      return el["value"] if el and el.has_attr("value") else ""
  \<close>
\<close>

definition val :: "soup \<Rightarrow> string \<Rightarrow> exn + string" where
  "val soup ident =
     (case soup_find_id ''input'' ident soup of
        None \<Rightarrow> Inr []
      | Some el \<Rightarrow> if has_attr el ''value'' then getitem el ''value'' else Inr [])"

text \<open>
  The dictionary literal evaluates its four values in order; the first exception
  leaves the function. A dictionary is an association list in insertion order.
\<close>

type_synonym pydict = "(string \<times> string) list"

definition bind_exn :: "exn + 'a \<Rightarrow> ('a \<Rightarrow> exn + 'b) \<Rightarrow> exn + 'b" where
  "bind_exn r f = (case r of Inl e \<Rightarrow> Inl e | Inr x \<Rightarrow> f x)"

definition extract_hidden_fields :: "soup \<Rightarrow> exn + pydict" where
  "extract_hidden_fields soup =
     bind_exn (val soup ''__VIEWSTATE'') (\<lambda>v1.
     bind_exn (val soup ''__VIEWSTATEGENERATOR'') (\<lambda>v2.
     bind_exn (val soup ''__EVENTVALIDATION'') (\<lambda>v3.
     bind_exn (val soup ''__LASTFOCUS'') (\<lambda>v4.
       Inr [(''__VIEWSTATE'', v1), (''__VIEWSTATEGENERATOR'', v2),
            (''__EVENTVALIDATION'', v3), (''__LASTFOCUS'', v4)]))))"

text \<open>\<^verbatim>\<open>d.get(key, "")\<close>\<close>

definition dict_get :: "pydict \<Rightarrow> string \<Rightarrow> string" where
  "dict_get d k = (case map_of d k of None \<Rightarrow> [] | Some v \<Rightarrow> v)"

section \<open>parse\_fir\_rows\<close>

definition parse_fir_rows :: "soup \<Rightarrow> string list list" where
  "parse_fir_rows soup =
     (case soup_find_id ''table'' ''example'' soup of
        None \<Rightarrow> []
      | Some table \<Rightarrow>
          (case soup_find ''tbody'' table of
             None \<Rightarrow> []
           | Some tbody \<Rightarrow>
               filter (\<lambda>cols. cols \<noteq> [])
                 (map (\<lambda>tr. map (get_text '' '') (soup_find_all [''td''] tr))
                      (soup_find_all [''tr''] tbody))))"

section \<open>Regular expressions\<close>

text \<open>
  Python's \<^verbatim>\<open>re\<close> is a backtracking matcher. A greedy repetition \<^verbatim>\<open>c{lo,hi}\<close> of a
  character class tries the longest run first and gives characters back one at a time:
  \<open>runs\<close> lists the splits of the input in the order the matcher tries them.
  \<open>first_some\<close> takes the first alternative on which the rest of the pattern
  succeeds, and \<open>search\<close> tries every start position from the left.
  The class \<^verbatim>\<open>\d\<close> is \<open>is_digit\<close> and \<^verbatim>\<open>\s\<close> is \<open>is_space\<close>.
\<close>

definition runs :: "(char \<Rightarrow> bool) \<Rightarrow> nat \<Rightarrow> nat \<Rightarrow> string \<Rightarrow> (string \<times> string) list" where
  "runs P lo hi s =
     map (\<lambda>k. (take k s, drop k s)) (rev [lo ..< Suc (min hi (length (takeWhile P s)))])"

fun first_some :: "('a \<Rightarrow> 'b option) \<Rightarrow> 'a list \<Rightarrow> 'b option" where
  "first_some f [] = None"
| "first_some f (x # xs) = (case f x of Some y \<Rightarrow> Some y | None \<Rightarrow> first_some f xs)"

fun literal :: "string \<Rightarrow> string \<Rightarrow> string option" where
  "literal [] s = Some s"
| "literal (p # ps) [] = None"
| "literal (p # ps) (c # cs) = (if p = c then literal ps cs else None)"

fun one_of :: "(char \<Rightarrow> bool) \<Rightarrow> string \<Rightarrow> string option" where
  "one_of P [] = None"
| "one_of P (c # cs) = (if P c then Some cs else None)"

fun search :: "(string \<Rightarrow> 'g option) \<Rightarrow> string \<Rightarrow> 'g option" where
  "search m [] = m []"
| "search m (c # cs) = (case m (c # cs) of Some g \<Rightarrow> Some g | None \<Rightarrow> search m cs)"

subsection \<open>DATE\_RE\<close>

text \<open>\<^verbatim>\<open>DATE_RE = re.compile(r"(\d{1,2})[./-](\d{1,2})[./-](\d{2,4})")\<close>\<close>

definition is_date_sep :: "char \<Rightarrow> bool" where
  "is_date_sep c = (c \<in> set ''./-'')"

definition DATE_RE_match :: "string \<Rightarrow> (string \<times> string \<times> string) option" where
  "DATE_RE_match s =
     first_some (\<lambda>(d, r1).
       case one_of is_date_sep r1 of None \<Rightarrow> None | Some r2 \<Rightarrow>
         first_some (\<lambda>(mo, r3).
           case one_of is_date_sep r3 of None \<Rightarrow> None | Some r4 \<Rightarrow>
             first_some (\<lambda>(y, r5). Some (d, mo, y)) (runs is_digit 2 4 r4))
           (runs is_digit 1 2 r2))
       (runs is_digit 1 2 s)"

definition DATE_RE_search :: "string \<Rightarrow> (string \<times> string \<times> string) option" where
  "DATE_RE_search text = search DATE_RE_match text"

subsection \<open>POSTBACK\_RE\<close>

text \<open>\<^verbatim>\<open>POSTBACK_RE = re.compile(r"__doPostBack\('([^']*)'\s*,\s*'([^']*)'\)")\<close>\<close>

definition quote :: char where
  "quote = CHR 0x27"

definition not_quote :: "char \<Rightarrow> bool" where
  "not_quote c = (c \<noteq> quote)"

definition POSTBACK_RE_match :: "string \<Rightarrow> (string \<times> string) option" where
  "POSTBACK_RE_match s =
     (case literal (''__doPostBack('' @ [quote]) s of None \<Rightarrow> None | Some r1 \<Rightarrow>
        first_some (\<lambda>(tgt, r2).
          case literal [quote] r2 of None \<Rightarrow> None | Some r3 \<Rightarrow>
            first_some (\<lambda>(w1, r4).
              case literal '','' r4 of None \<Rightarrow> None | Some r5 \<Rightarrow>
                first_some (\<lambda>(w2, r6).
                  case literal [quote] r6 of None \<Rightarrow> None | Some r7 \<Rightarrow>
                    first_some (\<lambda>(arg, r8).
                      case literal (quote # '')'') r8 of None \<Rightarrow> None
                      | Some r9 \<Rightarrow> Some (tgt, arg))
                      (runs not_quote 0 (length r7) r7))
                  (runs is_space 0 (length r5) r5))
              (runs is_space 0 (length r3) r3))
          (runs not_quote 0 (length r1) r1))"

definition POSTBACK_RE_search :: "string \<Rightarrow> (string \<times> string) option" where
  "POSTBACK_RE_search source = search POSTBACK_RE_match source"

section \<open>extract\_date\_from\_text\<close>

text \<open>
  \<^verbatim>\<open>int(s)\<close> on the strings the script passes to it: regular expression groups of
  digits and the pieces of a month column. A non-empty string of ASCII digits is read
  in base ten; \<open>None\<close> stands for \<^verbatim>\<open>ValueError\<close>, the only exception \<^verbatim>\<open>int\<close> raises on
  a string.
\<close>

definition digit_value :: "char \<Rightarrow> nat" where
  "digit_value c = of_char c - 48"

definition decimal :: "string \<Rightarrow> int" where
  "decimal s = int (foldl (\<lambda>a c. 10 * a + digit_value c) 0 s)"

definition py_int :: "string \<Rightarrow> int option" where
  "py_int s = (if s \<noteq> [] \<and> list_all is_digit s then Some (decimal s) else None)"

text \<open>
  \<^verbatim>\<open>datetime(year, month, day)\<close> raises \<^verbatim>\<open>ValueError\<close> (here \<open>None\<close>) unless
  \<^verbatim>\<open>1 <= year <= 9999\<close>, \<^verbatim>\<open>1 <= month <= 12\<close> and the day exists in that month.
\<close>

record datetime =
  year :: int
  month :: int
  day :: int

definition is_leap :: "int \<Rightarrow> bool" where
  "is_leap y = (if y mod 100 = 0 then y mod 400 = 0 else y mod 4 = 0)"

definition days_in_month :: "int \<Rightarrow> int \<Rightarrow> int" where
  "days_in_month y m =
     (if m = 2 then (if is_leap y then 29 else 28)
      else if m = 4 \<or> m = 6 \<or> m = 9 \<or> m = 11 then 30 else 31)"

definition new_datetime :: "int \<Rightarrow> int \<Rightarrow> int \<Rightarrow> datetime option" where
  "new_datetime y m d =
     (if 1 \<le> y \<and> y \<le> 9999 \<and> 1 \<le> m \<and> m \<le> 12 \<and> 1 \<le> d \<and> d \<le> days_in_month y m
      then Some \<lparr>year = y, month = m, day = d\<rparr>
      else None)"

text \<open>
  \<^verbatim>\<open>
  def extract_date_from_text(text):
      m = DATE_RE.search(text)
      if not m:
          return None
      d, mo, y = m.groups()
      if len(y) == 2:
          y = "20" + y
      try:
          return datetime(int(y), int(mo), int(d))
      except ValueError:
          return None
  \<close>
\<close>

definition extract_date_from_text :: "string \<Rightarrow> datetime option" where
  "extract_date_from_text text =
     (case DATE_RE_search text of
        None \<Rightarrow> None
      | Some (d, mo, y) \<Rightarrow>
          (let y2 = (if length y = 2 then ''20'' @ y else y) in
           Option.bind (py_int y2) (\<lambda>yi.
           Option.bind (py_int mo) (\<lambda>mi.
           Option.bind (py_int d) (\<lambda>di. new_datetime yi mi di)))))"

section \<open>De-duplication loops\<close>

text \<open>
  \<^verbatim>\<open>
  seen = set(); unique = []
  for v in options:
      if key(v) not in seen:
          seen.add(key(v)); unique.append(v)
  \<close>
  The three loops of this shape differ in the key only.
\<close>

fun unique_loop :: "('a \<Rightarrow> 'k) \<Rightarrow> 'k set \<Rightarrow> 'a list \<Rightarrow> 'a list \<Rightarrow> 'a list" where
  "unique_loop key seen unique [] = unique"
| "unique_loop key seen unique (v # vs) =
     (if key v \<in> seen then unique_loop key seen unique vs
      else unique_loop key (insert (key v) seen) (unique @ [v]) vs)"

section \<open>parse\_ps\_options\<close>

text \<open>\<^verbatim>\<open>opt.get("value", "").strip()\<close> for every option below the control.\<close>

definition option_values :: "node \<Rightarrow> string list" where
  "option_values sel =
     map (\<lambda>opt. strip (get_attr opt ''value'' [])) (soup_find_all [''option''] sel)"

definition parse_ps_options :: "soup \<Rightarrow> string list" where
  "parse_ps_options soup =
     (case soup_find_id ''select'' ''ctl00_ContentPlaceHolder1_ddlPoliceStation'' soup of
        None \<Rightarrow> []
      | Some sel \<Rightarrow>
          (let options = filter (\<lambda>v. v \<noteq> [] \<and> v \<noteq> ''0'') (option_values sel)
           in unique_loop (\<lambda>v. v) {} [] options))"

section \<open>find\_postback\_actions\<close>

definition source_actions :: "string \<Rightarrow> (string \<times> string) list" where
  "source_actions source =
     (if source \<noteq> [] then (case POSTBACK_RE_search source of Some g \<Rightarrow> [g] | None \<Rightarrow> [])
      else [])"

definition find_postback_actions :: "soup \<Rightarrow> (string \<times> string) list" where
  "find_postback_actions soup =
     (let actions = concat (map (\<lambda>a. source_actions (get_attr a ''onclick'' [])
                                      @ source_actions (get_attr a ''href'' []))
                                (soup_find_all [''a'', ''button''] soup))
      in unique_loop (\<lambda>ta. ta) {} [] actions)"

section \<open>Counting dated rows\<close>

text \<open>
  A \<^verbatim>\<open>Counter\<close> keyed by \<^verbatim>\<open>(year, month)\<close>: a missing key reads as 0, both in
  \<^verbatim>\<open>counts[k] += 1\<close> and in \<^verbatim>\<open>counts.get(k, 0)\<close>.
\<close>

type_synonym counter = "(int \<times> int) \<rightharpoonup> int"

definition counter_get :: "counter \<Rightarrow> int \<times> int \<Rightarrow> int" where
  "counter_get counts k = (case counts k of None \<Rightarrow> 0 | Some n \<Rightarrow> n)"

definition counter_incr :: "counter \<Rightarrow> int \<times> int \<Rightarrow> counter" where
  "counter_incr counts k = counts(k \<mapsto> counter_get counts k + 1)"

text \<open>
  \<^verbatim>\<open>
  for cell in cols:
      dt = extract_date_from_text(cell)
      if dt and START_YEAR <= dt.year <= END_YEAR:
          counts[(dt.year, dt.month)] += 1
          break
  \<close>
\<close>

fun scan_cells :: "counter \<Rightarrow> string list \<Rightarrow> counter" where
  "scan_cells counts [] = counts"
| "scan_cells counts (cell # cols) =
     (case extract_date_from_text cell of
        None \<Rightarrow> scan_cells counts cols
      | Some dt \<Rightarrow>
          if START_YEAR \<le> year dt \<and> year dt \<le> END_YEAR
          then counter_incr counts (year dt, month dt)
          else scan_cells counts cols)"

text \<open>\<^verbatim>\<open>for cols in rows: ...\<close>\<close>

fun count_rows :: "counter \<Rightarrow> string list list \<Rightarrow> counter" where
  "count_rows counts [] = counts"
| "count_rows counts (cols # rows) = count_rows (scan_cells counts cols) rows"

section \<open>The remote site and a session\<close>

text \<open>
  The site is a deterministic machine: from its state and a request it gives the
  outcome of the call and its next state. An outcome \<open>Inl e\<close> is the exception raised
  by \<^verbatim>\<open>session.get\<close>/\<^verbatim>\<open>session.post\<close> (after the adapter's retries) or by
  \<^verbatim>\<open>raise_for_status\<close>; \<open>Inr soup\<close> is the parsed body of a successful response.
  A session carries the site's state as this session sees it and the exchanges
  made so far. The random sleeps have no effect on results and are left out.
\<close>

datatype request = GET | POST pydict

type_synonym 's server = "'s \<Rightarrow> request \<Rightarrow> (exn + soup) \<times> 's"

record 's session =
  site :: 's
  exchanges :: "(request \<times> (exn + soup)) list"

definition send :: "'s server \<Rightarrow> request \<Rightarrow> 's session \<Rightarrow> (exn + soup) \<times> 's session" where
  "send srv rq ses =
     (case srv (site ses) rq of
        (res, st) \<Rightarrow> (res, \<lparr>site = st, exchanges = exchanges ses @ [(rq, res)]\<rparr>))"

definition make_session :: "'s \<Rightarrow> 's session" where
  "make_session st = \<lparr>site = st, exchanges = []\<rparr>"

text \<open>
  \<^verbatim>\<open>
  def do_post(session, payload, ...):
      r = session.post(BASE_URL, data=payload, timeout=REQUEST_TIMEOUT)
      r.raise_for_status()
      soup = BeautifulSoup(r.text, "html.parser")
      hidden = extract_hidden_fields(soup)
      return soup, hidden
  \<close>
\<close>

definition do_post ::
  "'s server \<Rightarrow> pydict \<Rightarrow> 's session \<Rightarrow> (exn + soup \<times> pydict) \<times> 's session" where
  "do_post srv payload ses =
     (case send srv (POST payload) ses of
        (Inl e, ses1) \<Rightarrow> (Inl e, ses1)
      | (Inr soup, ses1) \<Rightarrow>
          (bind_exn (extract_hidden_fields soup) (\<lambda>hidden. Inr (soup, hidden)), ses1))"

section \<open>Decimal text of integers\<close>

text \<open>\<^verbatim>\<open>str(n)\<close> for an integer, and the format \<^verbatim>\<open>f"{m:02d}"\<close>.\<close>

definition digit_char :: "nat \<Rightarrow> char" where
  "digit_char n = ''0123456789'' ! n"

function str_nat :: "nat \<Rightarrow> string" where
  "str_nat n = (if n < 10 then [digit_char n] else str_nat (n div 10) @ [digit_char (n mod 10)])"
  by pat_completeness auto
termination
  by (relation "measure (\<lambda>n. n)") auto

declare str_nat.simps [simp del]

definition str_int :: "int \<Rightarrow> string" where
  "str_int i = (if i < 0 then CHR ''-'' # str_nat (nat (- i)) else str_nat (nat i))"

definition zfill :: "nat \<Rightarrow> string \<Rightarrow> string" where
  "zfill w s = replicate (w - length s) CHR ''0'' @ s"

definition fmt_02d :: "int \<Rightarrow> string" where
  "fmt_02d m = (if m < 0 then CHR ''-'' # zfill 1 (str_nat (nat (- m))) else zfill 2 (str_nat (nat m)))"

section \<open>Form payloads\<close>

text \<open>The payload of the district postback; the two callers differ in the radio value.\<close>

definition district_payload :: "string \<Rightarrow> pydict \<Rightarrow> int \<Rightarrow> pydict" where
  "district_payload radio hidden district_id =
     [(''__EVENTTARGET'', ''ctl00$ContentPlaceHolder1$ddlDistrict''),
      (''__EVENTARGUMENT'', []),
      (''__LASTFOCUS'', dict_get hidden ''__LASTFOCUS''),
      (''__VIEWSTATE'', dict_get hidden ''__VIEWSTATE''),
      (''__VIEWSTATEGENERATOR'', dict_get hidden ''__VIEWSTATEGENERATOR''),
      (''__EVENTVALIDATION'', dict_get hidden ''__EVENTVALIDATION''),
      (''ctl00$ContentPlaceHolder1$ddlDistrict'', str_int district_id),
      (''ctl00$ContentPlaceHolder1$ddlPoliceStation'', ''0''),
      (''ctl00$ContentPlaceHolder1$optionsRadios'', radio),
      (''ctl00$ContentPlaceHolder1$txtSearchBy'', [])]"

definition search_payload :: "pydict \<Rightarrow> int \<Rightarrow> string \<Rightarrow> pydict" where
  "search_payload hidden2 district_id ps_id =
     [(''__EVENTTARGET'', []),
      (''__EVENTARGUMENT'', []),
      (''__LASTFOCUS'', dict_get hidden2 ''__LASTFOCUS''),
      (''__VIEWSTATE'', dict_get hidden2 ''__VIEWSTATE''),
      (''__VIEWSTATEGENERATOR'', dict_get hidden2 ''__VIEWSTATEGENERATOR''),
      (''__EVENTVALIDATION'', dict_get hidden2 ''__EVENTVALIDATION''),
      (''ctl00$ContentPlaceHolder1$ddlDistrict'', str_int district_id),
      (''ctl00$ContentPlaceHolder1$ddlPoliceStation'', ps_id),
      (''ctl00$ContentPlaceHolder1$optionsRadios'', ''radioFIR''),
      (''ctl00$ContentPlaceHolder1$txtSearchBy'', []),
      (''ctl00$ContentPlaceHolder1$btnSearch'', ''Search'')]"

definition page_payload :: "string \<Rightarrow> string \<Rightarrow> pydict \<Rightarrow> int \<Rightarrow> string \<Rightarrow> pydict" where
  "page_payload tgt arg hidden_res district_id ps_id =
     [(''__EVENTTARGET'', tgt),
      (''__EVENTARGUMENT'', arg),
      (''__LASTFOCUS'', dict_get hidden_res ''__LASTFOCUS''),
      (''__VIEWSTATE'', dict_get hidden_res ''__VIEWSTATE''),
      (''__VIEWSTATEGENERATOR'', dict_get hidden_res ''__VIEWSTATEGENERATOR''),
      (''__EVENTVALIDATION'', dict_get hidden_res ''__EVENTVALIDATION''),
      (''ctl00$ContentPlaceHolder1$ddlDistrict'', str_int district_id),
      (''ctl00$ContentPlaceHolder1$ddlPoliceStation'', ps_id),
      (''ctl00$ContentPlaceHolder1$optionsRadios'', ''radioFIR''),
      (''ctl00$ContentPlaceHolder1$txtSearchBy'', [])]"

section \<open>get\_ps\_for\_district\<close>

definition get_ps_for_district ::
  "'s server \<Rightarrow> int \<Rightarrow> 's session \<Rightarrow> (exn + string list) \<times> 's session" where
  "get_ps_for_district srv district_id s =
     (case send srv GET s of
        (Inl e, s1) \<Rightarrow> (Inl e, s1)
      | (Inr soup, s1) \<Rightarrow>
          (case extract_hidden_fields soup of
             Inl e \<Rightarrow> (Inl e, s1)
           | Inr hidden \<Rightarrow>
               (case do_post srv (district_payload ''radioPetioner'' hidden district_id) s1 of
                  (Inl e, s2) \<Rightarrow> (Inl e, s2)
                | (Inr (soup2, hidden2), s2) \<Rightarrow> (Inr (parse_ps_options soup2), s2))))"

section \<open>fetch\_counts\_for\_ps\<close>

text \<open>
  \<^verbatim>\<open>page_actions = [(t, a) for (t, a) in actions if "Page$" in a]\<close>, then the
  de-duplication by argument.
\<close>

definition ordered_page_actions :: "soup \<Rightarrow> (string \<times> string) list" where
  "ordered_page_actions soup_res =
     (let actions = find_postback_actions soup_res;
          page_actions = filter (\<lambda>(t, a). sublist ''Page$'' a) actions
      in unique_loop snd {} [] page_actions)"

text \<open>
  The loop over the page actions. Its state is the latest hidden fields, the counts
  and the session.
  \<^verbatim>\<open>
  for tgt, arg in ordered_page_actions:
      payload_page = {...}
      try:
          soup_page, hidden_page = do_post(s, payload_page)
      except Exception:
          # try to continue to next
          continue
      hidden_res = hidden_page  # update for subsequent page posts
      rows = parse_fir_rows(soup_page)
      for cols in rows: ...
  \<close>
\<close>

fun page_loop ::
  "'s server \<Rightarrow> int \<Rightarrow> string \<Rightarrow> (string \<times> string) list \<Rightarrow>
   pydict \<times> counter \<times> 's session \<Rightarrow> pydict \<times> counter \<times> 's session" where
  "page_loop srv district_id ps_id [] st = st"
| "page_loop srv district_id ps_id ((tgt, arg) # acts) (hidden_res, counts, s) =
     (case do_post srv (page_payload tgt arg hidden_res district_id ps_id) s of
        (Inl e, s1) \<Rightarrow> page_loop srv district_id ps_id acts (hidden_res, counts, s1)
      | (Inr (soup_page, hidden_page), s1) \<Rightarrow>
          page_loop srv district_id ps_id acts
            (hidden_page, count_rows counts (parse_fir_rows soup_page), s1))"

definition fetch_counts_for_ps ::
  "'s server \<Rightarrow> int \<Rightarrow> string \<Rightarrow> 's session \<Rightarrow> (exn + counter) \<times> 's session" where
  "fetch_counts_for_ps srv district_id ps_id s =
     (case send srv GET s of
        (Inl e, s1) \<Rightarrow> (Inl e, s1)
      | (Inr soup, s1) \<Rightarrow>
          (case extract_hidden_fields soup of
             Inl e \<Rightarrow> (Inl e, s1)
           | Inr hidden \<Rightarrow>
               (case do_post srv (district_payload ''radioFIR'' hidden district_id) s1 of
                  (Inl e, s2) \<Rightarrow> (Inl e, s2)
                | (Inr (soup2, hidden2), s2) \<Rightarrow>
                    (case do_post srv (search_payload hidden2 district_id ps_id) s2 of
                       (Inl e, s3) \<Rightarrow> (Inr Map.empty, s3)
                     | (Inr (soup_res, hidden_res), s3) \<Rightarrow>
                         (case page_loop srv district_id ps_id (ordered_page_actions soup_res)
                                 (hidden_res, count_rows Map.empty (parse_fir_rows soup_res), s3) of
                            (hidden_end, counts, s4) \<Rightarrow> (Inr counts, s4))))))"

section \<open>worker\_ps and the month columns\<close>

text \<open>
  \<^verbatim>\<open>
  for y in range(START_YEAR, END_YEAR + 1):
      for m in range(1, 13):
          MONTH_COLS.append(f"{y}-{m:02d}")
  \<close>
\<close>

definition MONTH_COLS :: "string list" where
  "MONTH_COLS =
     concat (map (\<lambda>y. map (\<lambda>m. str_int y @ ''-'' @ fmt_02d m) [1..12]) [START_YEAR..END_YEAR])"

text \<open>\<^verbatim>\<open>s.split(sep)\<close> for a one-character separator.\<close>

fun split_on :: "char \<Rightarrow> string \<Rightarrow> string list" where
  "split_on sep [] = [[]]"
| "split_on sep (c # cs) =
     (if c = sep then [] # split_on sep cs
      else (case split_on sep cs of [] \<Rightarrow> [[c]] | p # ps \<Rightarrow> (c # p) # ps))"

text \<open>
  \<^verbatim>\<open>y, m = map(int, col.split("-"))\<close>: \<^verbatim>\<open>ValueError\<close> (here \<open>None\<close>) when a piece is
  not a number or when there are not exactly two pieces.
\<close>

definition parse_col :: "string \<Rightarrow> (int \<times> int) option" where
  "parse_col col =
     (case map py_int (split_on CHR ''-'' col) of
        [Some y, Some m] \<Rightarrow> Some (y, m)
      | _ \<Rightarrow> None)"

text \<open>A CSV row mixes integers and strings.\<close>

datatype field = I int | S string

text \<open>
  \<^verbatim>\<open>
  for col in MONTH_COLS:
      y, m = map(int, col.split("-"))
      row.append(counts.get((y, m), 0))
  \<close>
\<close>

fun month_values :: "counter \<Rightarrow> string list \<Rightarrow> exn + field list" where
  "month_values counts [] = Inr []"
| "month_values counts (col # cols) =
     (case parse_col col of
        None \<Rightarrow> Inl ValueError
      | Some (y, m) \<Rightarrow>
          bind_exn (month_values counts cols) (\<lambda>vs. Inr (I (counter_get counts (y, m)) # vs)))"

text \<open>
  \<^verbatim>\<open>
  def worker_ps(args):
      district_id, ps_id = args
      session = make_session()
      try:
          counts = fetch_counts_for_ps(district_id, ps_id, session=session)
      except Exception as e:
          counts = Counter()
      row = [district_id, ps_id]
      ...
      return row
  \<close>
  The session it makes starts from the site state \<open>st\<close>.
\<close>

definition worker_ps :: "'s server \<Rightarrow> 's \<Rightarrow> int \<times> string \<Rightarrow> exn + field list" where
  "worker_ps srv st args =
     (case args of (district_id, ps_id) \<Rightarrow>
        (let session = make_session st;
             counts = (case fst (fetch_counts_for_ps srv district_id ps_id session) of
                         Inl e \<Rightarrow> Map.empty
                       | Inr c \<Rightarrow> c)
         in bind_exn (month_values counts MONTH_COLS)
              (\<lambda>vs. Inr ([I district_id, S ps_id] @ vs))))"

section \<open>main\<close>

text \<open>
  The output file is the list of rows written, in order. Every session of the run is
  made afresh: \<open>init\<close> gives the site state that the session of a district's
  discovery (\<open>None\<close>) or of one police station's task (\<open>Some ps_id\<close>) starts from.
  \<open>as_completed\<close> gives the order in which the futures of one district complete.
\<close>

definition zero_row :: "int \<Rightarrow> string \<Rightarrow> field list" where
  "zero_row district_id ps_id = [I district_id, S ps_id] @ replicate (length MONTH_COLS) (I 0)"

definition district_rows ::
  "'s server \<Rightarrow> (int \<Rightarrow> string option \<Rightarrow> 's) \<Rightarrow>
   ((int \<times> string) list \<Rightarrow> (int \<times> string) list) \<Rightarrow> int \<Rightarrow> field list list" where
  "district_rows srv init as_completed district_id =
     (let ps_list = (case fst (get_ps_for_district srv district_id
                                 (make_session (init district_id None))) of
                       Inl e \<Rightarrow> []
                     | Inr l \<Rightarrow> l)
      in if ps_list = [] then [zero_row district_id []]
         else (let tasks = map (\<lambda>ps_id. (district_id, ps_id)) ps_list
               in map (\<lambda>t. case worker_ps srv (init (fst t) (Some (snd t))) t of
                              Inl e \<Rightarrow> zero_row (fst t) (snd t)
                            | Inr row \<Rightarrow> row)
                      (as_completed tasks)))"

definition main ::
  "'s server \<Rightarrow> (int \<Rightarrow> string option \<Rightarrow> 's) \<Rightarrow>
   ((int \<times> string) list \<Rightarrow> (int \<times> string) list) \<Rightarrow> field list list" where
  "main srv init as_completed =
     ([S ''district_id'', S ''ps_id''] @ map S MONTH_COLS)
       # concat (map (district_rows srv init as_completed) DISTRICT_IDS)"

section \<open>Notions used to state the properties\<close>

subsection \<open>Dates\<close>

text \<open>
  The text \<open>s\<close> begins with an occurrence of the date pattern whose groups are \<open>d\<close>,
  \<open>mo\<close> and \<open>y\<close>: one or two digits, a separator, one or two digits, a separator, and
  two to four digits, the year group taking as many digits as it can.
\<close>

definition date_groups_at :: "string \<Rightarrow> string \<Rightarrow> string \<Rightarrow> string \<Rightarrow> bool" where
  "date_groups_at s d mo y =
     (\<exists>c1 c2 rest.
        s = d @ c1 # mo @ c2 # y @ rest \<and>
        d \<noteq> [] \<and> length d \<le> 2 \<and> list_all is_digit d \<and> is_date_sep c1 \<and>
        mo \<noteq> [] \<and> length mo \<le> 2 \<and> list_all is_digit mo \<and> is_date_sep c2 \<and>
        2 \<le> length y \<and> length y \<le> 4 \<and> list_all is_digit y \<and>
        (length y = 4 \<or> list_all (\<lambda>c. \<not> is_digit c) (take 1 rest)))"

text \<open>The leftmost occurrence in \<open>text\<close>: no occurrence begins at an earlier position.\<close>

definition first_date_match :: "string \<Rightarrow> string \<Rightarrow> string \<Rightarrow> string \<Rightarrow> bool" where
  "first_date_match text d mo y =
     (\<exists>pre post.
        text = pre @ post \<and> date_groups_at post d mo y \<and>
        (\<forall>i < length pre. \<forall>d1 mo1 y1. \<not> date_groups_at (drop i text) d1 mo1 y1))"

text \<open>The year a year group stands for: two digits are read in the century 2000.\<close>

definition year_value :: "string \<Rightarrow> int" where
  "year_value y = (if length y = 2 then 2000 + decimal y else decimal y)"

text \<open>
  The date pattern from the month group on, once the day group \<open>d\<close> and its
  separator are read, without backtracking.
\<close>

definition month_part :: "string \<Rightarrow> string \<Rightarrow> (string \<times> string \<times> string) option" where
  "month_part d r2 =
     (if 1 \<le> length (takeWhile is_digit r2) \<and> length (takeWhile is_digit r2) \<le> 2
      then (case one_of is_date_sep (dropWhile is_digit r2) of
              None \<Rightarrow> None
            | Some r4 \<Rightarrow>
                if 2 \<le> length (takeWhile is_digit r4)
                then Some (d, takeWhile is_digit r2, take (min 4 (length (takeWhile is_digit r4))) r4)
                else None)
      else None)"

text \<open>
  The pattern as the specification words it, with a year of two or of four digits,
  four digits preferred, and the extractor built on it.
\<close>

definition spec_DATE_match :: "string \<Rightarrow> (string \<times> string \<times> string) option" where
  "spec_DATE_match s =
     first_some (\<lambda>(d, r1).
       case one_of is_date_sep r1 of None \<Rightarrow> None | Some r2 \<Rightarrow>
         first_some (\<lambda>(mo, r3).
           case one_of is_date_sep r3 of None \<Rightarrow> None | Some r4 \<Rightarrow>
             first_some (\<lambda>(y, r5). Some (d, mo, y))
               (runs is_digit 4 4 r4 @ runs is_digit 2 2 r4))
           (runs is_digit 1 2 r2))
       (runs is_digit 1 2 s)"

definition spec_extract_date :: "string \<Rightarrow> datetime option" where
  "spec_extract_date text =
     (case search spec_DATE_match text of
        None \<Rightarrow> None
      | Some (d, mo, y) \<Rightarrow> new_datetime (year_value y) (decimal mo) (decimal d))"

subsection \<open>Rows and buckets\<close>

text \<open>The bucket a cell is counted in: its date, when there is one within the year range.\<close>

definition counted_date :: "string \<Rightarrow> (int \<times> int) option" where
  "counted_date cell =
     (case extract_date_from_text cell of
        None \<Rightarrow> None
      | Some dt \<Rightarrow>
          if START_YEAR \<le> year dt \<and> year dt \<le> END_YEAR then Some (year dt, month dt) else None)"

text \<open>The bucket of a row: that of its first cell that has one.\<close>

definition row_bucket :: "string list \<Rightarrow> (int \<times> int) option" where
  "row_bucket cols = first_some counted_date cols"

text \<open>
  The aggregator as the specification words it: the scan of a row ends at the first
  cell in which the date pattern occurs, whether or not that cell is counted.
\<close>

definition spec_ingest :: "counter \<Rightarrow> string list \<Rightarrow> counter" where
  "spec_ingest counts cols =
     (case List.find (\<lambda>cell. DATE_RE_search cell \<noteq> None) cols of
        None \<Rightarrow> counts
      | Some cell \<Rightarrow>
          (case counted_date cell of None \<Rightarrow> counts | Some k \<Rightarrow> counter_incr counts k))"

text \<open>
  The police stations \<open>main\<close> works with for a district: those the discovery
  returns, none when it raises.
\<close>

definition discovered_stations ::
  "'s server \<Rightarrow> (int \<Rightarrow> string option \<Rightarrow> 's) \<Rightarrow> int \<Rightarrow> string list" where
  "discovered_stations srv init district_id =
     (case fst (get_ps_for_district srv district_id (make_session (init district_id None))) of
        Inl e \<Rightarrow> []
      | Inr l \<Rightarrow> l)"

text \<open>
  The row \<open>main\<close> writes for a completed task: the worker's row, the zero row when
  the future raises.
\<close>

definition task_row ::
  "'s server \<Rightarrow> (int \<Rightarrow> string option \<Rightarrow> 's) \<Rightarrow> int \<times> string \<Rightarrow> field list" where
  "task_row srv init t =
     (case worker_ps srv (init (fst t) (Some (snd t))) t of
        Inl e \<Rightarrow> zero_row (fst t) (snd t)
      | Inr row \<Rightarrow> row)"

text \<open>The buckets in chronological order.\<close>

definition buckets :: "(int \<times> int) list" where
  "buckets = concat (map (\<lambda>y. map (\<lambda>m. (y, m)) [1..12]) [START_YEAR..END_YEAR])"

subsection \<open>First occurrences\<close>

text \<open>Keep an element, drop the later elements with its key, go on.\<close>

function first_seen :: "('a \<Rightarrow> 'k) \<Rightarrow> 'a list \<Rightarrow> 'a list" where
  "first_seen key [] = []"
| "first_seen key (x # xs) = x # first_seen key (filter (\<lambda>y. key y \<noteq> key x) xs)"
  by pat_completeness auto
termination
  by (relation "measure (\<lambda>(key, xs). length xs)") (auto simp: less_Suc_eq_le)

subsection \<open>What a session did\<close>

text \<open>The postback a request asks for: its event target and event argument.\<close>

fun request_action :: "request \<Rightarrow> string \<times> string" where
  "request_action GET = ([], [])"
| "request_action (POST payload) =
     (dict_get payload ''__EVENTTARGET'', dict_get payload ''__EVENTARGUMENT'')"

text \<open>
  The first two exchanges of a crawl are the landing page and the district postback;
  the result pages are the successful exchanges after them.
\<close>

fun response_rows :: "request \<times> (exn + soup) \<Rightarrow> string list list" where
  "response_rows (rq, Inl e) = []"
| "response_rows (rq, Inr soup) = parse_fir_rows soup"

definition ingested_rows :: "'s session \<Rightarrow> string list list" where
  "ingested_rows s = concat (map response_rows (drop 2 (exchanges s)))"

fun succeeded :: "request \<times> (exn + soup) \<Rightarrow> bool" where
  "succeeded (rq, Inl e) = False"
| "succeeded (rq, Inr soup) = True"

definition pages_visited :: "'s session \<Rightarrow> nat" where
  "pages_visited s = length (filter succeeded (drop 2 (exchanges s)))"

definition page_turns :: "'s session \<Rightarrow> (string \<times> string) list" where
  "page_turns s = map (\<lambda>x. request_action (fst x)) (drop 3 (exchanges s))"

subsection \<open>Sample pages and sites\<close>

definition postback_link :: "string \<Rightarrow> string \<Rightarrow> node" where
  "postback_link tgt arg =
     Tag ''a''
       [(''href'', ''javascript:__doPostBack('' @ [quote] @ tgt @ [quote] @ '','' @ [quote] @ arg
                   @ [quote] @ '')'')]
       [NavigableString arg]"

definition pager_link :: "string \<Rightarrow> node" where
  "pager_link arg = postback_link ''ctl00$ContentPlaceHolder1$example'' arg"

definition result_page :: "string list list \<Rightarrow> string list \<Rightarrow> soup" where
  "result_page rows args =
     Tag ''[document]'' []
       [Tag ''table'' [(''id'', ''example'')]
          [Tag ''tbody'' []
             (map (\<lambda>cols. Tag ''tr'' [] (map (\<lambda>c. Tag ''td'' [] [NavigableString c]) cols)) rows)],
        Tag ''div'' [] (map pager_link args)]"

definition blank_page :: soup where
  "blank_page = Tag ''[document]'' [] []"

text \<open>
  A site without state: the search postback gets \<open>first\<close>, a page postback gets the
  outcome listed under its argument, anything else a blank page.
\<close>

definition paged_site :: "(exn + soup) \<Rightarrow> (string \<times> (exn + soup)) list \<Rightarrow> unit server" where
  "paged_site first others st rq =
     (case rq of
        GET \<Rightarrow> (Inr blank_page, st)
      | POST payload \<Rightarrow>
          (case map_of payload ''ctl00$ContentPlaceHolder1$btnSearch'' of
             Some b \<Rightarrow> (first, st)
           | None \<Rightarrow>
               (case map_of others (dict_get payload ''__EVENTARGUMENT'') of
                  Some r \<Rightarrow> (r, st)
                | None \<Rightarrow> (Inr blank_page, st))))"

text \<open>Three result pages, each linking to the next one only; the last offers no page turn.\<close>

definition page_one :: soup where
  "page_one = result_page [[''1'', ''A'', ''05/03/2021'']] [''Page$2'']"

definition page_two :: soup where
  "page_two = result_page [[''2'', ''B'', ''06/04/2022'']] [''Page$3'']"

definition page_three :: soup where
  "page_three = result_page [[''3'', ''C'', ''07/05/2023'']] []"

definition three_pages :: "unit server" where
  "three_pages = paged_site (Inr page_one) [(''Page$2'', Inr page_two), (''Page$3'', Inr page_three)]"

text \<open>A first page linking to two more pages, the first of which cannot be fetched.\<close>

definition page_hub :: soup where
  "page_hub = result_page [[''1'', ''A'', ''05/03/2021'']] [''Page$2'', ''Page$3'', ''Page$2'']"

definition failing_second :: "unit server" where
  "failing_second =
     paged_site (Inr page_hub) [(''Page$2'', Inl RequestException), (''Page$3'', Inr page_three)]"

text \<open>A landing page with one hidden field and no results table; a table without body.\<close>

definition landing_page :: soup where
  "landing_page =
     Tag ''[document]'' []
       [Tag ''input'' [(''type'', ''hidden''), (''id'', ''__VIEWSTATE''), (''value'', ''abc'')] [],
        Tag ''input'' [(''type'', ''hidden''), (''id'', ''__EVENTVALIDATION'')] [],
        Tag ''select'' [(''id'', ''ctl00_ContentPlaceHolder1_ddlPoliceStation'')]
          [Tag ''option'' [(''value'', ''0'')] [NavigableString ''Select''],
           Tag ''option'' [(''value'', '' 12 '')] [NavigableString ''Kotwali''],
           Tag ''option'' [(''value'', ''7'')] [NavigableString ''Sadar''],
           Tag ''option'' [] [NavigableString ''none''],
           Tag ''option'' [(''value'', ''12'')] [NavigableString ''Kotwali again'']]]"

definition bodyless_page :: soup where
  "bodyless_page =
     Tag ''[document]'' []
       [Tag ''table'' [(''id'', ''example'')] [Tag ''tr'' [] [Tag ''td'' [] [NavigableString ''x'']]]]"

text \<open>
  A page with a pager above and a pager below the table, both offering the same page
  turn, and a postback that is not a page turn.
\<close>

definition two_pagers :: soup where
  "two_pagers =
     Tag ''[document]'' []
       [postback_link ''top'' ''Page$2'', postback_link ''grid'' ''Sort$Date'',
        postback_link ''bottom'' ''Page$2'', postback_link ''top'' ''Page$2'']"

text \<open>A site that cannot be reached: every call raises.\<close>

definition down_site :: "unit server" where
  "down_site st rq = (Inl RequestException, st)"

text \<open>
  A site that lists the police stations \<^verbatim>\<open>12\<close> and \<^verbatim>\<open>7\<close> and answers a search
  with one page of one row. Its state says whether it is down for the session; the
  session of station \<^verbatim>\<open>7\<close> finds it down.
\<close>

definition station_site :: "bool server" where
  "station_site down rq =
     (if down then (Inl RequestException, down)
      else (case rq of
              GET \<Rightarrow> (Inr landing_page, down)
            | POST payload \<Rightarrow>
                (case map_of payload ''ctl00$ContentPlaceHolder1$btnSearch'' of
                   Some b \<Rightarrow> (Inr page_three, down)
                 | None \<Rightarrow> (Inr landing_page, down))))"

definition station_init :: "int \<Rightarrow> string option \<Rightarrow> bool" where
  "station_init district_id ps_id = (ps_id = Some ''7'')"

text \<open>The sessions of the crawls of the two sample sites, as the crawl leaves them.\<close>

definition three_pages_run :: "unit session" where
  "three_pages_run = snd (fetch_counts_for_ps three_pages 1 ''7'' (make_session ()))"

definition failing_second_run :: "unit session" where
  "failing_second_run = snd (fetch_counts_for_ps failing_second 1 ''7'' (make_session ()))"

section \<open>Auxiliary facts\<close>

subsection \<open>Hidden fields and first occurrences\<close>

lemma val_Inr:
  "val soup k = Inr (case soup_find_id ''input'' k soup of None \<Rightarrow> [] | Some el \<Rightarrow> get_attr el ''value'' [])"
  by (simp add: val_def has_attr_def getitem_def get_attr_def split: option.splits)

lemma extract_hidden_fields_Inr:
  "\<exists>v1 v2 v3 v4. extract_hidden_fields soup =
     Inr [(''__VIEWSTATE'', v1), (''__VIEWSTATEGENERATOR'', v2),
          (''__EVENTVALIDATION'', v3), (''__LASTFOCUS'', v4)]"
  by (simp add: extract_hidden_fields_def bind_exn_def val_Inr)

lemma first_seen_set_subset: "set (first_seen key xs) \<subseteq> set xs"
  by (induction key xs rule: first_seen.induct) auto

lemma first_seen_keys: "key ` set (first_seen key xs) = key ` set xs"
proof (induction key xs rule: first_seen.induct)
  case (1 key)
  then show ?case by simp
next
  case (2 key x xs)
  have "key ` set (x # xs) = insert (key x) (key ` set (filter (\<lambda>y. key y \<noteq> key x) xs))"
    by auto
  with 2 show ?case by simp
qed

lemma first_seen_distinct: "distinct (map key (first_seen key xs))"
proof (induction key xs rule: first_seen.induct)
  case (1 key)
  then show ?case by simp
next
  case (2 key x xs)
  have "key x \<notin> key ` set (first_seen key (filter (\<lambda>y. key y \<noteq> key x) xs))"
    using first_seen_set_subset [of key "filter (\<lambda>y. key y \<noteq> key x) xs"] by auto
  with 2 show ?case by simp
qed

lemma first_seen_subseq: "subseq (first_seen key xs) xs"
proof (induction key xs rule: first_seen.induct)
  case (1 key)
  then show ?case by simp
next
  case (2 key x xs)
  have "subseq (filter (\<lambda>y. key y \<noteq> key x) xs) xs" by simp
  with 2 have "subseq (first_seen key (filter (\<lambda>y. key y \<noteq> key x) xs)) xs"
    using subseq_order.order_trans by blast
  then show ?case by simp
qed

lemma first_seen_first:
  "x \<in> set (first_seen key xs) \<Longrightarrow> List.find (\<lambda>y. key y = key x) xs = Some x"
proof (induction key xs rule: first_seen.induct)
  case (1 key)
  then show ?case by simp
next
  case (2 key a xs)
  show ?case
  proof (cases "x = a")
    case True
    then show ?thesis by simp
  next
    case False
    with 2 have mem: "x \<in> set (first_seen key (filter (\<lambda>y. key y \<noteq> key a) xs))" by simp
    then have "x \<in> set (filter (\<lambda>y. key y \<noteq> key a) xs)"
      using first_seen_set_subset by fastforce
    then have ne: "key x \<noteq> key a" by simp
    have "List.find (\<lambda>y. key y = key x) (filter (\<lambda>y. key y \<noteq> key a) xs) = Some x"
      using 2 mem by simp
    moreover have "List.find (\<lambda>y. key y = key x) (filter (\<lambda>y. key y \<noteq> key a) xs)
                 = List.find (\<lambda>y. key y = key x) xs"
      using ne by (induction xs) auto
    ultimately show ?thesis using ne by simp
  qed
qed

lemma unique_loop_first_seen:
  "unique_loop key seen acc xs = acc @ first_seen key (filter (\<lambda>x. key x \<notin> seen) xs)"
proof (induction xs arbitrary: seen acc)
  case Nil
  then show ?case by simp
next
  case (Cons v vs)
  have "filter (\<lambda>y. key y \<noteq> key v) (filter (\<lambda>x. key x \<notin> seen) vs)
      = filter (\<lambda>x. key x \<notin> insert (key v) seen) vs"
    by (simp add: conj_commute)
  with Cons show ?case by simp
qed

subsection \<open>Counting\<close>

lemma counter_get_incr:
  "counter_get (counter_incr c k) j = counter_get c j + (if j = k then 1 else 0)"
  by (simp add: counter_get_def counter_incr_def)

lemma scan_cells_row_bucket:
  "scan_cells c cols = (case row_bucket cols of None \<Rightarrow> c | Some k \<Rightarrow> counter_incr c k)"
  by (induction cols) (auto simp: row_bucket_def counted_date_def split: option.splits)

lemma count_rows_get:
  "counter_get (count_rows c rows) k
     = counter_get c k + int (length (filter (\<lambda>r. row_bucket r = Some k) rows))"
proof (induction rows arbitrary: c)
  case Nil
  then show ?case by simp
next
  case (Cons cols rows)
  show ?case
    by (cases "row_bucket cols")
       (auto simp: Cons scan_cells_row_bucket counter_get_incr)
qed

subsection \<open>Requests and exchanges\<close>

lemma send_exchanges:
  "send srv rq s = (res, s1) \<Longrightarrow> exchanges s1 = exchanges s @ [(rq, res)]"
  by (auto simp: send_def split: prod.splits)

lemma bind_extract_hidden_fields:
  "bind_exn (extract_hidden_fields soup) f = f (projr (extract_hidden_fields soup))"
proof -
  obtain h where "extract_hidden_fields soup = Inr h"
    using extract_hidden_fields_Inr by blast
  then show ?thesis by (simp add: bind_exn_def)
qed

lemma do_post_send:
  "do_post srv p s =
     (case send srv (POST p) s of
        (Inl e, s1) \<Rightarrow> (Inl e, s1)
      | (Inr soup, s1) \<Rightarrow> (Inr (soup, projr (extract_hidden_fields soup)), s1))"
  by (simp add: do_post_def bind_extract_hidden_fields split: prod.splits sum.splits)

lemma do_post_Inl:
  "do_post srv p s = (Inl e, s1) \<Longrightarrow> exchanges s1 = exchanges s @ [(POST p, Inl e)]"
  by (auto simp: do_post_send dest: send_exchanges split: prod.splits sum.splits)

lemma do_post_Inr:
  "do_post srv p s = (Inr (soup, h), s1) \<Longrightarrow> exchanges s1 = exchanges s @ [(POST p, Inr soup)]"
  by (auto simp: do_post_send dest: send_exchanges split: prod.splits sum.splits)

lemma page_payload_action:
  "dict_get (page_payload tgt arg h d ps) ''__EVENTTARGET'' = tgt"
  "dict_get (page_payload tgt arg h d ps) ''__EVENTARGUMENT'' = arg"
  by (simp_all add: page_payload_def dict_get_def)

lemma page_loop_trace:
  "page_loop srv d ps acts (h, c, s) = (h1, c1, s1) \<Longrightarrow>
   \<exists>xs. exchanges s1 = exchanges s @ xs
      \<and> map (\<lambda>x. request_action (fst x)) xs = acts
      \<and> (\<forall>k. counter_get c1 k
              = counter_get c k
                + int (length (filter (\<lambda>r. row_bucket r = Some k) (concat (map response_rows xs)))))"
proof (induction acts arbitrary: h c s)
  case Nil
  then show ?case by simp
next
  case (Cons act acts)
  obtain tgt arg where act: "act = (tgt, arg)" by (cases act)
  obtain r s2 where post: "do_post srv (page_payload tgt arg h d ps) s = (r, s2)"
    by (cases "do_post srv (page_payload tgt arg h d ps) s")
  show ?case
  proof (cases r)
    case (Inl e)
    with Cons.prems act post have "page_loop srv d ps acts (h, c, s2) = (h1, c1, s1)"
      by simp
    from Cons.IH [OF this] obtain xs where xs:
      "exchanges s1 = exchanges s2 @ xs" "map (\<lambda>x. request_action (fst x)) xs = acts"
      "\<forall>k. counter_get c1 k = counter_get c k
              + int (length (filter (\<lambda>r. row_bucket r = Some k) (concat (map response_rows xs))))"
      by blast
    from post Inl have s2: "exchanges s2 = exchanges s @ [(POST (page_payload tgt arg h d ps), Inl e)]"
      by (simp add: do_post_Inl)
    let ?ys = "(POST (page_payload tgt arg h d ps), Inl e) # xs"
    have "exchanges s1 = exchanges s @ ?ys" using xs s2 by simp
    moreover have "map (\<lambda>x. request_action (fst x)) ?ys = act # acts"
      using xs act by (simp add: page_payload_action)
    moreover have "\<forall>k. counter_get c1 k = counter_get c k
              + int (length (filter (\<lambda>r. row_bucket r = Some k) (concat (map response_rows ?ys))))"
      using xs by simp
    ultimately have "exchanges s1 = exchanges s @ ?ys
        \<and> map (\<lambda>x. request_action (fst x)) ?ys = act # acts
        \<and> (\<forall>k. counter_get c1 k = counter_get c k
              + int (length (filter (\<lambda>r. row_bucket r = Some k) (concat (map response_rows ?ys)))))"
      by blast
    then show ?thesis by (rule exI)
  next
    case (Inr sh)
    obtain soup hp where sh: "sh = (soup, hp)" by (cases sh)
    let ?c2 = "count_rows c (parse_fir_rows soup)"
    from Cons.prems act post Inr sh
    have "page_loop srv d ps acts (hp, ?c2, s2) = (h1, c1, s1)"
      by simp
    from Cons.IH [OF this] obtain xs where xs:
      "exchanges s1 = exchanges s2 @ xs" "map (\<lambda>x. request_action (fst x)) xs = acts"
      "\<forall>k. counter_get c1 k = counter_get ?c2 k
              + int (length (filter (\<lambda>r. row_bucket r = Some k) (concat (map response_rows xs))))"
      by blast
    from post Inr sh have s2: "exchanges s2 = exchanges s @ [(POST (page_payload tgt arg h d ps), Inr soup)]"
      by (simp add: do_post_Inr)
    let ?ys = "(POST (page_payload tgt arg h d ps), Inr soup) # xs"
    have "exchanges s1 = exchanges s @ ?ys" using xs s2 by simp
    moreover have "map (\<lambda>x. request_action (fst x)) ?ys = act # acts"
      using xs act by (simp add: page_payload_action)
    moreover have "\<forall>k. counter_get c1 k = counter_get c k
              + int (length (filter (\<lambda>r. row_bucket r = Some k) (concat (map response_rows ?ys))))"
      using xs by (simp add: count_rows_get)
    ultimately have "exchanges s1 = exchanges s @ ?ys
        \<and> map (\<lambda>x. request_action (fst x)) ?ys = act # acts
        \<and> (\<forall>k. counter_get c1 k = counter_get c k
              + int (length (filter (\<lambda>r. row_bucket r = Some k) (concat (map response_rows ?ys)))))"
      by blast
    then show ?thesis by (rule exI)
  qed
qed

subsection \<open>The shape of a crawl\<close>

lemma counter_get_empty: "counter_get Map.empty k = 0"
  by (simp add: counter_get_def)

lemma fetch_shape:
  assumes run: "fetch_counts_for_ps srv d ps s = (res, s1)" and fresh: "exchanges s = []"
  shows "(\<exists>e. res = Inl e \<and> length (exchanges s1) \<le> 2)
       \<or> (\<exists>x1 x2 rq e. res = Inr Map.empty \<and> exchanges s1 = [x1, x2, (rq, Inl e)])
       \<or> (\<exists>x1 x2 rq soup_res xs counts.
             res = Inr counts
           \<and> exchanges s1 = x1 # x2 # (rq, Inr soup_res) # xs
           \<and> map (\<lambda>x. request_action (fst x)) xs = ordered_page_actions soup_res
           \<and> (\<forall>k. counter_get counts k
                  = int (length (filter (\<lambda>r. row_bucket r = Some k)
                                   (parse_fir_rows soup_res @ concat (map response_rows xs))))))"
proof -
  obtain r1 t1 where get: "send srv GET s = (r1, t1)"
    by (cases "send srv GET s")
  from send_exchanges [OF get] fresh have t1: "exchanges t1 = [(GET, r1)]" by simp
  show ?thesis
  proof (cases r1)
    case (Inl e)
    with run get have "res = Inl e" "s1 = t1"
      by (simp_all add: fetch_counts_for_ps_def)
    with t1 show ?thesis by simp
  next
    case (Inr soup)
    let ?hidden = "projr (extract_hidden_fields soup)"
    obtain h where h: "extract_hidden_fields soup = Inr h"
      using extract_hidden_fields_Inr by blast
    let ?p1 = "district_payload ''radioFIR'' h d"
    obtain r2 t2 where post1: "do_post srv ?p1 t1 = (r2, t2)"
      by (cases "do_post srv ?p1 t1")
    show ?thesis
    proof (cases r2)
      case (Inl e)
      with run get Inr h post1 have "res = Inl e" "s1 = t2"
        by (simp_all add: fetch_counts_for_ps_def)
      moreover from post1 Inl t1 have "length (exchanges t2) = 2"
        by (simp add: do_post_Inl)
      ultimately show ?thesis by simp
    next
      case r2: (Inr sh2)
      obtain soup2 hidden2 where sh2: "sh2 = (soup2, hidden2)" by (cases sh2)
      from post1 r2 sh2 t1 have t2: "exchanges t2 = [(GET, r1), (POST ?p1, Inr soup2)]"
        by (simp add: do_post_Inr)
      let ?p2 = "search_payload hidden2 d ps"
      obtain r3 t3 where post2: "do_post srv ?p2 t2 = (r3, t3)"
        by (cases "do_post srv ?p2 t2")
      show ?thesis
      proof (cases r3)
        case (Inl e)
        with run get Inr h post1 r2 sh2 post2 have "res = Inr Map.empty" "s1 = t3"
          by (simp_all add: fetch_counts_for_ps_def)
        moreover from post2 Inl t2
        have "exchanges t3 = [(GET, r1), (POST ?p1, Inr soup2), (POST ?p2, Inl e)]"
          by (simp add: do_post_Inl)
        ultimately show ?thesis by blast
      next
        case r3: (Inr sh3)
        obtain soup_res hidden_res where sh3: "sh3 = (soup_res, hidden_res)" by (cases sh3)
        from post2 r3 sh3 t2
        have t3: "exchanges t3 = [(GET, r1), (POST ?p1, Inr soup2), (POST ?p2, Inr soup_res)]"
          by (simp add: do_post_Inr)
        let ?c0 = "count_rows Map.empty (parse_fir_rows soup_res)"
        obtain h4 c4 t4 where loop:
          "page_loop srv d ps (ordered_page_actions soup_res) (hidden_res, ?c0, t3) = (h4, c4, t4)"
          by (cases "page_loop srv d ps (ordered_page_actions soup_res) (hidden_res, ?c0, t3)")
        with run get Inr h post1 r2 sh2 post2 r3 sh3 have res: "res = Inr c4" "s1 = t4"
          by (simp_all add: fetch_counts_for_ps_def)
        from page_loop_trace [OF loop] obtain xs where xs:
          "exchanges t4 = exchanges t3 @ xs"
          "map (\<lambda>x. request_action (fst x)) xs = ordered_page_actions soup_res"
          "\<forall>k. counter_get c4 k = counter_get ?c0 k
              + int (length (filter (\<lambda>r. row_bucket r = Some k) (concat (map response_rows xs))))"
          by blast
        have "\<forall>k. counter_get c4 k
                  = int (length (filter (\<lambda>r. row_bucket r = Some k)
                                   (parse_fir_rows soup_res @ concat (map response_rows xs))))"
          using xs(3) by (simp add: count_rows_get counter_get_empty)
        moreover have "exchanges s1 = (GET, r1) # (POST ?p1, Inr soup2) # (POST ?p2, Inr soup_res) # xs"
          using xs(1) t3 res by simp
        ultimately have "res = Inr c4
           \<and> exchanges s1 = (GET, r1) # (POST ?p1, Inr soup2) # (POST ?p2, Inr soup_res) # xs
           \<and> map (\<lambda>x. request_action (fst x)) xs = ordered_page_actions soup_res
           \<and> (\<forall>k. counter_get c4 k
                  = int (length (filter (\<lambda>r. row_bucket r = Some k)
                                   (parse_fir_rows soup_res @ concat (map response_rows xs)))))"
          using res xs(2) by blast
        then show ?thesis by blast
      qed
    qed
  qed
qed

lemma fetch_search_page:
  assumes run: "fetch_counts_for_ps srv d ps s = (res, s1)" and fresh: "exchanges s = []"
    and long: "2 < length (exchanges s1)" and third: "snd (exchanges s1 ! 2) = Inr soup_res"
  shows "\<exists>x1 x2 rq xs counts.
             res = Inr counts
           \<and> exchanges s1 = x1 # x2 # (rq, Inr soup_res) # xs
           \<and> map (\<lambda>x. request_action (fst x)) xs = ordered_page_actions soup_res
           \<and> (\<forall>k. counter_get counts k
                  = int (length (filter (\<lambda>r. row_bucket r = Some k)
                                   (parse_fir_rows soup_res @ concat (map response_rows xs)))))"
  using fetch_shape [OF run fresh] long third by auto

lemma fetch_counts_ingested:
  assumes run: "fetch_counts_for_ps srv d ps s = (res, s1)" and fresh: "exchanges s = []"
  shows "counter_get (case res of Inl e \<Rightarrow> Map.empty | Inr c \<Rightarrow> c) k
           = int (length (filter (\<lambda>r. row_bucket r = Some k) (ingested_rows s1)))"
proof -
  from fetch_shape [OF run fresh] consider
    (early) e where "res = Inl e" "length (exchanges s1) \<le> 2"
  | (nosearch) x1 x2 rq e where "res = Inr Map.empty" "exchanges s1 = [x1, x2, (rq, Inl e)]"
  | (walked) x1 x2 rq soup_res xs counts where
      "res = Inr counts" "exchanges s1 = x1 # x2 # (rq, Inr soup_res) # xs"
      "\<forall>k. counter_get counts k
             = int (length (filter (\<lambda>r. row_bucket r = Some k)
                              (parse_fir_rows soup_res @ concat (map response_rows xs))))"
    by blast
  then show ?thesis
  proof cases
    case early
    then show ?thesis by (simp add: counter_get_empty ingested_rows_def)
  next
    case nosearch
    then show ?thesis by (simp add: counter_get_empty ingested_rows_def)
  next
    case walked
    from walked(3) have "counter_get counts k
             = int (length (filter (\<lambda>r. row_bucket r = Some k)
                              (parse_fir_rows soup_res @ concat (map response_rows xs))))"
      by (rule spec)
    with walked(1,2) show ?thesis by (simp add: ingested_rows_def)
  qed
qed

lemma ordered_page_actions_first_seen:
  "ordered_page_actions soup
     = first_seen snd (filter (\<lambda>(t, a). sublist ''Page$'' a) (find_postback_actions soup))"
  by (simp add: ordered_page_actions_def unique_loop_first_seen)

subsection \<open>Decimal text\<close>

lemma digit_char_table:
  "list_all (\<lambda>k. is_digit (digit_char k) \<and> digit_value (digit_char k) = k) [0..<10]"
  by code_simp

lemma digit_char_props:
  assumes "n < 10"
  shows "is_digit (digit_char n)" and "digit_value (digit_char n) = n"
proof -
  from assms have "n \<in> set [0..<10]" by simp
  with digit_char_table
  have both: "is_digit (digit_char n) \<and> digit_value (digit_char n) = n"
    unfolding list_all_iff by (rule bspec)
  from both show "is_digit (digit_char n)" by (rule conjunct1)
  from both show "digit_value (digit_char n) = n" by (rule conjunct2)
qed

lemma decimal_snoc: "decimal (s @ [c]) = 10 * decimal s + int (digit_value c)"
  by (simp add: decimal_def)

lemma str_nat_digits: "list_all is_digit (str_nat n) \<and> str_nat n \<noteq> []"
proof (induction n rule: str_nat.induct)
  case (1 n)
  show ?case
  proof (cases "n < 10")
    case True
    then show ?thesis by (simp add: str_nat.simps [of n] digit_char_props)
  next
    case False
    with 1 show ?thesis by (simp add: str_nat.simps [of n] digit_char_props)
  qed
qed

lemma decimal_str_nat: "decimal (str_nat n) = int n"
proof (induction n rule: str_nat.induct)
  case (1 n)
  show ?case
  proof (cases "n < 10")
    case True
    then show ?thesis by (simp add: str_nat.simps [of n] decimal_def digit_char_props)
  next
    case False
    with 1 have ih: "decimal (str_nat (n div 10)) = int (n div 10)" by simp
    have "int (10 * (n div 10) + n mod 10) = int n"
      by (simp only: mult_div_mod_eq)
    then have arith: "10 * int (n div 10) + int (n mod 10) = int n"
      by (simp only: of_nat_add of_nat_mult of_nat_numeral)
    have "decimal (str_nat n)
            = 10 * decimal (str_nat (n div 10)) + int (digit_value (digit_char (n mod 10)))"
      using False by (simp add: str_nat.simps [of n] decimal_snoc)
    also have "\<dots> = 10 * int (n div 10) + int (n mod 10)"
      by (simp add: ih digit_char_props)
    also note arith
    finally show ?thesis .
  qed
qed

lemma decimal_zeros: "decimal (replicate k CHR ''0'' @ s) = decimal s"
proof -
  have "foldl (\<lambda>a c. 10 * a + digit_value c) 0 (replicate k CHR ''0'') = 0"
    by (induction k) (simp_all add: digit_value_def)
  then show ?thesis by (simp add: decimal_def)
qed

lemma py_int_str_nat: "py_int (str_nat n) = Some (int n)"
  using str_nat_digits [of n] by (simp add: py_int_def decimal_str_nat)

lemma is_digit_zero: "is_digit CHR ''0''"
  by (simp add: is_digit_def)

lemma zfill_digits:
  "list_all is_digit s \<Longrightarrow> s \<noteq> [] \<Longrightarrow> list_all is_digit (zfill w s) \<and> zfill w s \<noteq> []"
  by (auto simp: zfill_def list_all_iff is_digit_zero)

lemma decimal_zfill: "decimal (zfill w s) = decimal s"
  by (simp add: zfill_def decimal_zeros)

lemma py_int_zfill: "py_int (zfill w (str_nat n)) = Some (int n)"
  using str_nat_digits [of n] zfill_digits [of "str_nat n" w]
  by (simp add: py_int_def decimal_zfill decimal_str_nat)

lemma split_on_plain: "sep \<notin> set s \<Longrightarrow> split_on sep s = [s]"
  by (induction s) auto

lemma split_on_append: "sep \<notin> set a \<Longrightarrow> split_on sep (a @ sep # b) = a # split_on sep b"
  by (induction a) auto

lemma dash_no_digit: "\<not> is_digit CHR ''-''"
  by (simp add: is_digit_def)

lemma digits_no_dash: "list_all is_digit s \<Longrightarrow> CHR ''-'' \<notin> set s"
  using dash_no_digit by (auto simp: list_all_iff)

lemma parse_col_format:
  assumes "0 \<le> y" and "0 \<le> m"
  shows "parse_col (str_int y @ ''-'' @ fmt_02d m) = Some (y, m)"
proof -
  let ?ys = "str_nat (nat y)" and ?ms = "zfill 2 (str_nat (nat m))"
  have dy: "CHR ''-'' \<notin> set ?ys"
    using str_nat_digits [of "nat y"] by (simp add: digits_no_dash)
  have "list_all is_digit ?ms"
    using str_nat_digits [of "nat m"] by (simp add: zfill_digits)
  then have dm: "CHR ''-'' \<notin> set ?ms" by (rule digits_no_dash)
  have "split_on CHR ''-'' (?ys @ CHR ''-'' # ?ms) = [?ys, ?ms]"
    using dy dm by (simp add: split_on_append split_on_plain)
  with assms show ?thesis
    by (simp add: parse_col_def str_int_def fmt_02d_def py_int_str_nat py_int_zfill)
qed

subsection \<open>Rows of the output\<close>

lemma parse_col_format_cons:
  "0 \<le> y \<Longrightarrow> 0 \<le> m \<Longrightarrow> parse_col (str_int y @ CHR ''-'' # fmt_02d m) = Some (y, m)"
  using parse_col_format [of y m] by simp

lemma parse_col_month_row:
  "0 \<le> y \<Longrightarrow> \<forall>m \<in> set ms. 0 \<le> m \<Longrightarrow>
   map parse_col (map (\<lambda>m. str_int y @ ''-'' @ fmt_02d m) ms) = map Some (map (\<lambda>m. (y, m)) ms)"
  by (induction ms) (simp_all add: parse_col_format_cons)

lemma parse_col_month_rows:
  "\<forall>y \<in> set ys. 0 \<le> y \<Longrightarrow> \<forall>m \<in> set ms. 0 \<le> m \<Longrightarrow>
   map parse_col (concat (map (\<lambda>y. map (\<lambda>m. str_int y @ ''-'' @ fmt_02d m) ms) ys))
     = map Some (concat (map (\<lambda>y. map (\<lambda>m. (y, m)) ms) ys))"
proof (induction ys)
  case Nil
  then show ?case by simp
next
  case (Cons y ys)
  then have "0 \<le> y" by simp
  from parse_col_month_row [OF this Cons.prems(2)] Cons show ?case by simp
qed

lemma month_cols_buckets: "map parse_col MONTH_COLS = map Some buckets"
proof -
  have ys: "\<forall>y \<in> set [2014..2025::int]. 0 \<le> y"
    by (simp only: set_upto) simp
  have ms: "\<forall>m \<in> set [1..12::int]. 0 \<le> m"
    by (simp only: set_upto) simp
  show ?thesis
    unfolding MONTH_COLS_def buckets_def START_YEAR_def END_YEAR_def
    by (rule parse_col_month_rows [OF ys ms])
qed

lemma nth_concat_blocks:
  "\<forall>x \<in> set xs. length (f x) = n \<Longrightarrow> i < length xs * n \<Longrightarrow>
   concat (map f xs) ! i = f (xs ! (i div n)) ! (i mod n)"
proof (induction xs arbitrary: i)
  case Nil
  then show ?case by simp
next
  case (Cons x xs)
  from Cons.prems have n: "0 < n" by (cases n) auto
  show ?case
  proof (cases "i < n")
    case True
    with Cons.prems show ?thesis by (simp add: nth_append)
  next
    case False
    then have ge: "n \<le> i" by simp
    with Cons.prems have "i - n < length xs * n" by auto
    with Cons have "concat (map f xs) ! (i - n) = f (xs ! ((i - n) div n)) ! ((i - n) mod n)"
      by simp
    moreover have "i div n = Suc ((i - n) div n)" using n ge by (rule le_div_geq)
    moreover have "i mod n = (i - n) mod n" using ge by (rule le_mod_geq)
    ultimately show ?thesis using Cons.prems False by (simp add: nth_append)
  qed
qed

lemma length_buckets: "length buckets = 144"
  by (simp add: buckets_def START_YEAR_def END_YEAR_def length_concat comp_def)

lemma nth_buckets:
  assumes "i < 144"
  shows "buckets ! i = (START_YEAR + int (i div 12), 1 + int (i mod 12))"
proof -
  let ?f = "\<lambda>y. map (\<lambda>m. (y, m)) [1..12::int]"
  have len: "length [START_YEAR..END_YEAR] = 12"
    by (simp add: START_YEAR_def END_YEAR_def)
  have "buckets ! i = ?f ([START_YEAR..END_YEAR] ! (i div 12)) ! (i mod 12)"
    unfolding buckets_def using assms len by (intro nth_concat_blocks) auto
  moreover have "i div 12 < 12" using assms by simp
  then have "[START_YEAR..END_YEAR] ! (i div 12) = START_YEAR + int (i div 12)"
    unfolding START_YEAR_def END_YEAR_def by (intro nth_upto) simp
  moreover have "[1..12::int] ! (i mod 12) = 1 + int (i mod 12)"
    by (intro nth_upto) simp
  ultimately show ?thesis by simp
qed


lemma month_values_map:
  "map parse_col cols = map Some ks \<Longrightarrow>
   month_values counts cols = Inr (map (\<lambda>k. I (counter_get counts k)) ks)"
proof (induction cols arbitrary: ks)
  case Nil
  then show ?case by simp
next
  case (Cons col cols)
  then obtain k ks1 where ks: "ks = k # ks1" "parse_col col = Some k" "map parse_col cols = map Some ks1"
    by (cases ks) auto
  obtain y m where k: "k = (y, m)" by (cases k)
  from Cons.IH [OF ks(3)] ks k show ?case
    by (simp add: bind_exn_def)
qed

lemma month_values_buckets:
  "month_values counts MONTH_COLS = Inr (map (\<lambda>k. I (counter_get counts k)) buckets)"
  by (rule month_values_map [OF month_cols_buckets])


lemma length_MONTH_COLS: "length MONTH_COLS = 144"
  using arg_cong [OF month_cols_buckets, of length] by (simp add: length_buckets)

lemma worker_ps_row:
  "worker_ps srv st (d, ps)
     = Inr ([I d, S ps] @
            map (\<lambda>k. I (int (length (filter (\<lambda>r. row_bucket r = Some k)
                     (ingested_rows (snd (fetch_counts_for_ps srv d ps (make_session st))))))))
                buckets)"
proof -
  let ?run = "fetch_counts_for_ps srv d ps (make_session st)"
  have run: "?run = (fst ?run, snd ?run)" by simp
  have fresh: "exchanges (make_session st) = []" by (simp add: make_session_def)
  have "counter_get (case fst ?run of Inl e \<Rightarrow> Map.empty | Inr c \<Rightarrow> c) k
           = int (length (filter (\<lambda>r. row_bucket r = Some k) (ingested_rows (snd ?run))))" for k
    by (rule fetch_counts_ingested [OF run fresh])
  then show ?thesis
    by (simp add: worker_ps_def month_values_buckets bind_exn_def)
qed

lemma zero_row_buckets: "zero_row d p = [I d, S p] @ map (\<lambda>k. I 0) buckets"
  by (simp add: zero_row_def length_MONTH_COLS length_buckets map_replicate_const)

subsection \<open>Rows of a district\<close>

lemma worker_ps_failed:
  "fst (fetch_counts_for_ps srv d ps (make_session st)) = Inl e \<Longrightarrow>
   worker_ps srv st (d, ps) = Inr (zero_row d ps)"
  by (simp add: worker_ps_def month_values_buckets bind_exn_def zero_row_buckets counter_get_empty)

lemma worker_ps_head: "\<exists>vs. worker_ps srv st (d, ps) = Inr (I d # vs)"
  by (simp add: worker_ps_row)

lemma district_rows_head:
  assumes perm: "\<forall>ts. mset (ac ts) = mset ts"
  shows "district_rows srv init ac d \<noteq> []
       \<and> (\<forall>row \<in> set (district_rows srv init ac d). take 1 row = [I d])"
proof -
  define l where "l = (case fst (get_ps_for_district srv d (make_session (init d None))) of
                         Inl e \<Rightarrow> [] | Inr l \<Rightarrow> l)"
  define tasks where "tasks = map (\<lambda>ps_id. (d, ps_id)) l"
  let ?row = "\<lambda>t. case worker_ps srv (init (fst t) (Some (snd t))) t of
                     Inl e \<Rightarrow> zero_row (fst t) (snd t) | Inr row \<Rightarrow> row"
  have rows: "district_rows srv init ac d
                = (if l = [] then [zero_row d []] else map ?row (ac tasks))"
    by (simp add: district_rows_def l_def tasks_def)
  show ?thesis
  proof (cases "l = []")
    case True
    with rows show ?thesis by (simp add: zero_row_def)
  next
    case False
    from perm have "mset (ac tasks) = mset tasks" by (rule spec)
    then have same: "set (ac tasks) = set tasks"
      by (rule mset_eq_setD)
    from False have "set tasks \<noteq> {}" by (simp add: tasks_def)
    with same have nonempty: "ac tasks \<noteq> []" by auto
    have "take 1 (?row t) = [I d]" if "t \<in> set (ac tasks)" for t
    proof -
      from that same obtain ps where t: "t = (d, ps)" by (auto simp: tasks_def)
      obtain vs where "worker_ps srv (init d (Some ps)) (d, ps) = Inr (I d # vs)"
        using worker_ps_head [of srv "init d (Some ps)" d ps] by blast
      with t show ?thesis by simp
    qed
    with rows False nonempty show ?thesis by simp
  qed
qed

subsection \<open>The backtracking matcher\<close>

lemma first_some_None: "\<forall>x \<in> set xs. f x = None \<Longrightarrow> first_some f xs = None"
  by (induction xs) auto

lemma first_some_append: "\<forall>x \<in> set xs. f x = None \<Longrightarrow> first_some f (xs @ ys) = first_some f ys"
  by (induction xs) auto

lemma first_some_head: "first_some f (x # xs) = f x" if "\<forall>y \<in> set xs. f y = None"
  using that by (cases "f x") (simp_all add: first_some_None)

lemma run_inside:
  assumes "k < length (takeWhile P s)"
  shows "drop k s \<noteq> [] \<and> P (hd (drop k s))"
proof -
  have le: "length (takeWhile P s) \<le> length s" by (rule length_takeWhile_le)
  with assms have k: "k < length s" by simp
  from assms have "takeWhile P s ! k \<in> set (takeWhile P s)" by simp
  then have "P (takeWhile P s ! k)" by (rule set_takeWhileD [THEN conjunct2])
  moreover have "takeWhile P s ! k = s ! k" using assms by (rule takeWhile_nth)
  ultimately have "P (s ! k)" by simp
  with k show ?thesis by (simp add: hd_drop_conv_nth)
qed

lemma first_some_runs:
  assumes sep: "\<And>p r. r \<noteq> [] \<Longrightarrow> P (hd r) \<Longrightarrow> f (p, r) = None"
  shows "first_some f (runs P lo hi s)
           = (if lo \<le> length (takeWhile P s) \<and> length (takeWhile P s) \<le> hi
              then f (takeWhile P s, dropWhile P s) else None)"
proof -
  let ?n = "length (takeWhile P s)"
  let ?g = "\<lambda>k. (take k s, drop k s)"
  have inner: "f (?g k) = None" if "k < ?n" for k
    using run_inside [OF that] sep by simp
  show ?thesis
  proof (cases "lo \<le> ?n \<and> ?n \<le> hi")
    case True
    then have "min hi ?n = ?n" by simp
    with True have "rev [lo ..< Suc (min hi ?n)] = ?n # rev [lo ..< ?n]"
      by simp
    then have "runs P lo hi s = ?g ?n # map ?g (rev [lo ..< ?n])"
      by (simp add: runs_def)
    moreover have "\<forall>x \<in> set (map ?g (rev [lo ..< ?n])). f x = None"
      using inner by auto
    ultimately have "first_some f (runs P lo hi s) = f (?g ?n)"
      by (simp only: first_some_head)
    moreover have "?g ?n = (takeWhile P s, dropWhile P s)"
      using takeWhile_eq_take [of P s] dropWhile_eq_drop [of P s] by simp
    ultimately show ?thesis using True by simp
  next
    case False
    have "\<forall>x \<in> set (runs P lo hi s). f x = None"
    proof
      fix x assume "x \<in> set (runs P lo hi s)"
      then obtain k where k: "x = ?g k" "lo \<le> k" "k \<le> hi" "k \<le> ?n"
        by (auto simp: runs_def)
      with False have "k < ?n" by auto
      with k(1) show "f x = None" by (simp add: inner)
    qed
    then have "first_some f (runs P lo hi s) = None" by (rule first_some_None)
    with False show ?thesis by (simp only: if_False)
  qed
qed

lemma first_some_year:
  "first_some (\<lambda>(y, r5). Some (d, mo, y)) (runs is_digit 2 4 r4)
     = (if 2 \<le> length (takeWhile is_digit r4)
        then Some (d, mo, take (min 4 (length (takeWhile is_digit r4))) r4) else None)"
proof (cases "2 \<le> length (takeWhile is_digit r4)")
  case True
  let ?n = "min 4 (length (takeWhile is_digit r4))"
  from True have "2 \<le> ?n" by simp
  then have "rev [2 ..< Suc ?n] = ?n # rev [2 ..< ?n]" by simp
  with True show ?thesis by (simp add: runs_def)
next
  case False
  then have "[2 ..< Suc (min 4 (length (takeWhile is_digit r4)))] = []" by simp
  with False show ?thesis by (simp add: runs_def)
qed

lemma digit_not_sep: "is_digit c \<Longrightarrow> \<not> is_date_sep c"
  by (auto simp: is_digit_def is_date_sep_def)

lemma one_of_sep_digit: "r \<noteq> [] \<Longrightarrow> is_digit (hd r) \<Longrightarrow> one_of is_date_sep r = None"
  by (cases r) (simp_all add: digit_not_sep)

lemma month_part_runs:
  "first_some (\<lambda>(mo, r3).
           case one_of is_date_sep r3 of None \<Rightarrow> None | Some r4 \<Rightarrow>
             first_some (\<lambda>(y, r5). Some (d, mo, y)) (runs is_digit 2 4 r4))
           (runs is_digit 1 2 r2) = month_part d r2"
proof -
  let ?F = "\<lambda>(mo, r3).
           case one_of is_date_sep r3 of None \<Rightarrow> None | Some r4 \<Rightarrow>
             first_some (\<lambda>(y, r5). Some (d, mo, y)) (runs is_digit 2 4 r4)"
  have "first_some ?F (runs is_digit 1 2 r2)
          = (if 1 \<le> length (takeWhile is_digit r2) \<and> length (takeWhile is_digit r2) \<le> 2
             then ?F (takeWhile is_digit r2, dropWhile is_digit r2) else None)"
    by (rule first_some_runs) (simp add: one_of_sep_digit)
  then show ?thesis
    by (simp add: month_part_def first_some_year split: option.splits)
qed

lemma DATE_RE_match_det:
  "DATE_RE_match s
     = (if 1 \<le> length (takeWhile is_digit s) \<and> length (takeWhile is_digit s) \<le> 2
        then (case one_of is_date_sep (dropWhile is_digit s) of
                None \<Rightarrow> None
              | Some r2 \<Rightarrow> month_part (takeWhile is_digit s) r2)
        else None)"
proof -
  let ?F = "\<lambda>(d, r1). case one_of is_date_sep r1 of None \<Rightarrow> None | Some r2 \<Rightarrow> month_part d r2"
  have "DATE_RE_match s = first_some ?F (runs is_digit 1 2 s)"
    unfolding DATE_RE_match_def month_part_runs by (rule refl)
  also have "\<dots> = (if 1 \<le> length (takeWhile is_digit s) \<and> length (takeWhile is_digit s) \<le> 2
             then ?F (takeWhile is_digit s, dropWhile is_digit s) else None)"
    by (rule first_some_runs) (simp add: one_of_sep_digit)
  finally show ?thesis by simp
qed

subsection \<open>Occurrences of the date pattern\<close>

lemma one_of_Some: "one_of P r = Some r1 \<longleftrightarrow> (\<exists>c. r = c # r1 \<and> P c)"
  by (cases r) auto

lemma digits_then_other:
  assumes "list_all is_digit d" and "\<not> is_digit c"
  shows "takeWhile is_digit (d @ c # r) = d" and "dropWhile is_digit (d @ c # r) = c # r"
proof -
  from assms(1) have all: "\<And>x. x \<in> set d \<Longrightarrow> is_digit x" by (simp add: list_all_iff)
  from all have "takeWhile is_digit (d @ c # r) = d @ takeWhile is_digit (c # r)"
    by (rule takeWhile_append2)
  with assms(2) show "takeWhile is_digit (d @ c # r) = d" by simp
  from all have "dropWhile is_digit (d @ c # r) = dropWhile is_digit (c # r)"
    by (rule dropWhile_append2)
  with assms(2) show "dropWhile is_digit (d @ c # r) = c # r" by simp
qed

lemma take_of_run:
  assumes "k \<le> length (takeWhile P xs)"
  shows "list_all P (take k xs)"
proof -
  have "take k xs = take k (take (length (takeWhile P xs)) xs)"
    using assms by (simp add: min_def)
  also have "\<dots> = take k (takeWhile P xs)"
    using takeWhile_eq_take [of P xs] by simp
  finally have "set (take k xs) \<subseteq> set (takeWhile P xs)"
    by (simp add: set_take_subset)
  then show ?thesis
    by (auto simp: list_all_iff dest: set_takeWhileD)
qed

lemma year_group_taken:
  assumes y: "list_all is_digit y" "2 \<le> length y" "length y \<le> 4"
    and longest: "length y = 4 \<or> list_all (\<lambda>c. \<not> is_digit c) (take 1 rest)"
  shows "2 \<le> length (takeWhile is_digit (y @ rest))"
    and "take (min 4 (length (takeWhile is_digit (y @ rest)))) (y @ rest) = y"
proof -
  from y(1) have all: "\<And>x. x \<in> set y \<Longrightarrow> is_digit x" by (simp add: list_all_iff)
  from all have tw: "takeWhile is_digit (y @ rest) = y @ takeWhile is_digit rest"
    by (rule takeWhile_append2)
  with y(2) show "2 \<le> length (takeWhile is_digit (y @ rest))" by simp
  from longest show "take (min 4 (length (takeWhile is_digit (y @ rest)))) (y @ rest) = y"
  proof
    assume "length y = 4"
    with tw show ?thesis by simp
  next
    assume "list_all (\<lambda>c. \<not> is_digit c) (take 1 rest)"
    then have "takeWhile is_digit rest = []" by (cases rest) simp_all
    with tw y(3) show ?thesis by (simp add: min_def)
  qed
qed

lemma month_part_groups:
  assumes mo: "mo \<noteq> []" "length mo \<le> 2" "list_all is_digit mo" and c2: "is_date_sep c2"
    and y: "list_all is_digit y" "2 \<le> length y" "length y \<le> 4"
    and longest: "length y = 4 \<or> list_all (\<lambda>c. \<not> is_digit c) (take 1 rest)"
  shows "month_part d (mo @ c2 # y @ rest) = Some (d, mo, y)"
proof -
  from c2 have nd: "\<not> is_digit c2" using digit_not_sep by blast
  note tw = digits_then_other [OF mo(3) nd, of "y @ rest"]
  from mo(1) have "1 \<le> length mo" by (cases mo) simp_all
  with mo(2) c2 tw year_group_taken [OF y longest] show ?thesis
    by (simp add: month_part_def)
qed

lemma DATE_RE_match_groups:
  assumes "date_groups_at s d mo y"
  shows "DATE_RE_match s = Some (d, mo, y)"
proof -
  from assms obtain c1 c2 rest where
    s: "s = d @ c1 # mo @ c2 # y @ rest"
    and d: "d \<noteq> []" "length d \<le> 2" "list_all is_digit d" and c1: "is_date_sep c1"
    and mo: "mo \<noteq> []" "length mo \<le> 2" "list_all is_digit mo" and c2: "is_date_sep c2"
    and y: "2 \<le> length y" "length y \<le> 4" "list_all is_digit y"
    and longest: "length y = 4 \<or> list_all (\<lambda>c. \<not> is_digit c) (take 1 rest)"
    unfolding date_groups_at_def by blast
  from c1 have nd: "\<not> is_digit c1" using digit_not_sep by blast
  note tw = digits_then_other [OF d(3) nd, of "mo @ c2 # y @ rest"]
  from d(1) have "1 \<le> length d" by (cases d) simp_all
  with d(2) c1 tw month_part_groups [OF mo c2 y(3) y(1) y(2) longest, of d] show ?thesis
    by (simp add: DATE_RE_match_det s)
qed

lemma month_part_Some:
  assumes "month_part d r2 = Some g"
  shows "\<exists>mo c2 y rest. g = (d, mo, y) \<and> r2 = mo @ c2 # y @ rest
           \<and> mo \<noteq> [] \<and> length mo \<le> 2 \<and> list_all is_digit mo \<and> is_date_sep c2
           \<and> 2 \<le> length y \<and> length y \<le> 4 \<and> list_all is_digit y
           \<and> (length y = 4 \<or> list_all (\<lambda>c. \<not> is_digit c) (take 1 rest))"
proof -
  let ?mo = "takeWhile is_digit r2"
  from assms have len: "1 \<le> length ?mo" "length ?mo \<le> 2"
    by (auto simp: month_part_def split: if_splits)
  with assms obtain r4 where sep: "one_of is_date_sep (dropWhile is_digit r2) = Some r4"
    and n: "2 \<le> length (takeWhile is_digit r4)"
    and g: "g = (d, ?mo, take (min 4 (length (takeWhile is_digit r4))) r4)"
    by (auto simp: month_part_def split: if_splits option.splits)
  from sep obtain c2 where c2: "dropWhile is_digit r2 = c2 # r4" "is_date_sep c2"
    by (auto simp: one_of_Some)
  let ?k = "min 4 (length (takeWhile is_digit r4))"
  let ?y = "take ?k r4" and ?rest = "drop ?k r4"
  have r2: "r2 = ?mo @ c2 # ?y @ ?rest"
    using takeWhile_dropWhile_id [of is_digit r2] c2(1) by simp
  have mo_digits: "list_all is_digit ?mo"
    by (auto simp: list_all_iff dest: set_takeWhileD)
  have y_digits: "list_all is_digit ?y"
    by (rule take_of_run) simp
  have tl: "length (takeWhile is_digit r4) \<le> length r4" by (rule length_takeWhile_le)
  with n have y_len: "2 \<le> length ?y" "length ?y \<le> 4" by simp_all
  have longest: "length ?y = 4 \<or> list_all (\<lambda>c. \<not> is_digit c) (take 1 ?rest)"
  proof (cases "4 \<le> length (takeWhile is_digit r4)")
    case True
    with tl show ?thesis by simp
  next
    case False
    then have k: "?k = length (takeWhile is_digit r4)" by simp
    have "?rest = dropWhile is_digit r4"
      unfolding k by (rule dropWhile_eq_drop [symmetric])
    moreover have "list_all (\<lambda>c. \<not> is_digit c) (take 1 (dropWhile is_digit r4))"
    proof (cases "dropWhile is_digit r4")
      case Nil
      show ?thesis unfolding Nil by simp
    next
      case (Cons c cs)
      then have "dropWhile is_digit r4 \<noteq> []" by simp
      then have "\<not> is_digit (hd (dropWhile is_digit r4))" by (rule hd_dropWhile)
      with Cons show ?thesis by simp
    qed
    ultimately show ?thesis by simp
  qed
  from len(1) have "?mo \<noteq> []" by auto
  with g r2 len(2) mo_digits c2(2) y_len y_digits longest
  have "g = (d, ?mo, ?y) \<and> r2 = ?mo @ c2 # ?y @ ?rest
           \<and> ?mo \<noteq> [] \<and> length ?mo \<le> 2 \<and> list_all is_digit ?mo \<and> is_date_sep c2
           \<and> 2 \<le> length ?y \<and> length ?y \<le> 4 \<and> list_all is_digit ?y
           \<and> (length ?y = 4 \<or> list_all (\<lambda>c. \<not> is_digit c) (take 1 ?rest))"
    by (intro conjI)
  then show ?thesis
    by (intro exI)
qed

lemma DATE_RE_match_Some:
  assumes "DATE_RE_match s = Some (d, mo, y)"
  shows "date_groups_at s d mo y"
proof -
  let ?d = "takeWhile is_digit s"
  from assms have len: "1 \<le> length ?d" "length ?d \<le> 2"
    by (auto simp: DATE_RE_match_det split: if_splits)
  with assms obtain r2 where sep: "one_of is_date_sep (dropWhile is_digit s) = Some r2"
    and part: "month_part ?d r2 = Some (d, mo, y)"
    by (auto simp: DATE_RE_match_det split: if_splits option.splits)
  from sep obtain c1 where c1: "dropWhile is_digit s = c1 # r2" "is_date_sep c1"
    by (auto simp: one_of_Some)
  from month_part_Some [OF part] obtain c2 rest where
    d: "d = ?d" and r2: "r2 = mo @ c2 # y @ rest"
    and rest: "mo \<noteq> []" "length mo \<le> 2" "list_all is_digit mo" "is_date_sep c2"
      "2 \<le> length y" "length y \<le> 4" "list_all is_digit y"
      "length y = 4 \<or> list_all (\<lambda>c. \<not> is_digit c) (take 1 rest)"
    by auto
  have s: "s = d @ c1 # mo @ c2 # y @ rest"
    using takeWhile_dropWhile_id [of is_digit s] c1(1) d r2 by simp
  have d_digits: "list_all is_digit d"
    unfolding d by (auto simp: list_all_iff dest: set_takeWhileD)
  from len(1) d have d_ne: "d \<noteq> []" by auto
  from len(2) d have d_len: "length d \<le> 2" by simp
  from s d_ne d_len d_digits c1(2) rest
  have "s = d @ c1 # mo @ c2 # y @ rest \<and>
        d \<noteq> [] \<and> length d \<le> 2 \<and> list_all is_digit d \<and> is_date_sep c1 \<and>
        mo \<noteq> [] \<and> length mo \<le> 2 \<and> list_all is_digit mo \<and> is_date_sep c2 \<and>
        2 \<le> length y \<and> length y \<le> 4 \<and> list_all is_digit y \<and>
        (length y = 4 \<or> list_all (\<lambda>c. \<not> is_digit c) (take 1 rest))"
    by (intro conjI)
  then show ?thesis
    unfolding date_groups_at_def by (intro exI)
qed

lemma DATE_RE_match_iff: "DATE_RE_match s = Some (d, mo, y) \<longleftrightarrow> date_groups_at s d mo y"
  using DATE_RE_match_Some DATE_RE_match_groups by blast

subsection \<open>The leftmost occurrence\<close>

lemma search_SomeI:
  "t = pre @ post \<Longrightarrow> m post = Some g \<Longrightarrow> (\<forall>i < length pre. m (drop i t) = None)
   \<Longrightarrow> search m t = Some g"
proof (induction pre arbitrary: t)
  case Nil
  then show ?case by (cases post) simp_all
next
  case (Cons c pre)
  from Cons.prems(1) have t: "t = c # (pre @ post)" by simp
  have "0 < length (c # pre)" by simp
  with Cons.prems(3) have "m (drop 0 t) = None" by blast
  then have none: "m (c # (pre @ post)) = None" using t by simp
  have "\<forall>i < length pre. m (drop i (pre @ post)) = None"
  proof (intro allI impI)
    fix i assume "i < length pre"
    then have "Suc i < length (c # pre)" by simp
    with Cons.prems(3) have "m (drop (Suc i) t) = None" by blast
    with t show "m (drop i (pre @ post)) = None" by simp
  qed
  with Cons.IH [OF refl Cons.prems(2)] have "search m (pre @ post) = Some g" by blast
  with none t show ?case by simp
qed

lemma search_SomeD:
  "search m t = Some g \<Longrightarrow>
   \<exists>pre post. t = pre @ post \<and> m post = Some g \<and> (\<forall>i < length pre. m (drop i t) = None)"
proof (induction t)
  case Nil
  then have "[] = [] @ [] \<and> m [] = Some g \<and> (\<forall>i < length ([]::string). m (drop i []) = None)"
    by simp
  then show ?case by (intro exI)
next
  case (Cons c cs)
  show ?case
  proof (cases "m (c # cs)")
    case (Some g1)
    with Cons.prems have "m (c # cs) = Some g" by simp
    then have "c # cs = [] @ (c # cs) \<and> m (c # cs) = Some g
               \<and> (\<forall>i < length ([]::string). m (drop i (c # cs)) = None)"
      by simp
    then show ?thesis by (intro exI)
  next
    case None
    with Cons.prems have "search m cs = Some g" by simp
    from Cons.IH [OF this] obtain pre post where
      p: "cs = pre @ post" "m post = Some g" "\<forall>i < length pre. m (drop i cs) = None"
      by blast
    have "\<forall>i < length (c # pre). m (drop i (c # cs)) = None"
    proof (intro allI impI)
      fix i assume i: "i < length (c # pre)"
      show "m (drop i (c # cs)) = None"
      proof (cases i)
        case 0
        with None show ?thesis by simp
      next
        case (Suc j)
        with i p(3) show ?thesis by simp
      qed
    qed
    with p(1,2) have "c # cs = (c # pre) @ post \<and> m post = Some g
               \<and> (\<forall>i < length (c # pre). m (drop i (c # cs)) = None)"
      by simp
    then show ?thesis by (intro exI)
  qed
qed

lemma DATE_RE_match_None:
  "DATE_RE_match s = None \<longleftrightarrow> (\<forall>d mo y. \<not> date_groups_at s d mo y)"
proof
  assume none: "DATE_RE_match s = None"
  show "\<forall>d mo y. \<not> date_groups_at s d mo y"
  proof (intro allI notI)
    fix d mo y assume "date_groups_at s d mo y"
    then have "DATE_RE_match s = Some (d, mo, y)" by (rule DATE_RE_match_groups)
    with none show False by simp
  qed
next
  assume no: "\<forall>d mo y. \<not> date_groups_at s d mo y"
  show "DATE_RE_match s = None"
  proof (cases "DATE_RE_match s")
    case None
    then show ?thesis .
  next
    case (Some g)
    obtain d mo y where "g = (d, mo, y)" by (cases g)
    with Some have "date_groups_at s d mo y" by (simp add: DATE_RE_match_Some)
    with no show ?thesis by blast
  qed
qed

lemma DATE_RE_search_first:
  "DATE_RE_search text = Some (d, mo, y) \<longleftrightarrow> first_date_match text d mo y"
proof
  assume "DATE_RE_search text = Some (d, mo, y)"
  then have "search DATE_RE_match text = Some (d, mo, y)" by (simp add: DATE_RE_search_def)
  from search_SomeD [OF this] obtain pre post where
    p: "text = pre @ post" "DATE_RE_match post = Some (d, mo, y)"
       "\<forall>i < length pre. DATE_RE_match (drop i text) = None"
    by blast
  from p(2) have g: "date_groups_at post d mo y" by (rule DATE_RE_match_Some)
  from p(3) have e: "\<forall>i < length pre. \<forall>d1 mo1 y1. \<not> date_groups_at (drop i text) d1 mo1 y1"
    by (simp add: DATE_RE_match_None)
  from p(1) g e have "text = pre @ post \<and> date_groups_at post d mo y \<and>
        (\<forall>i < length pre. \<forall>d1 mo1 y1. \<not> date_groups_at (drop i text) d1 mo1 y1)"
    by (intro conjI)
  then show "first_date_match text d mo y"
    unfolding first_date_match_def by (intro exI)
next
  assume "first_date_match text d mo y"
  then obtain pre post where
    p: "text = pre @ post" "date_groups_at post d mo y"
       "\<forall>i < length pre. \<forall>d1 mo1 y1. \<not> date_groups_at (drop i text) d1 mo1 y1"
    unfolding first_date_match_def by blast
  from p(2) have "DATE_RE_match post = Some (d, mo, y)" by (rule DATE_RE_match_groups)
  moreover from p(3) have "\<forall>i < length pre. DATE_RE_match (drop i text) = None"
    by (simp add: DATE_RE_match_None)
  ultimately have "search DATE_RE_match text = Some (d, mo, y)"
    using p(1) by (intro search_SomeI)
  then show "DATE_RE_search text = Some (d, mo, y)" by (simp add: DATE_RE_search_def)
qed

lemma decimal_two_digit_year:
  assumes "length y = 2"
  shows "decimal (CHR ''2'' # CHR ''0'' # y) = 2000 + decimal y"
proof -
  from assms obtain a b where "y = [a, b]"
    by (auto simp: length_Suc_conv numeral_2_eq_2)
  moreover have "digit_value CHR ''2'' = 2" "digit_value CHR ''0'' = 0"
    by (simp_all add: digit_value_def)
  ultimately show ?thesis by (simp add: decimal_def)
qed

lemma extract_first_match:
  assumes "first_date_match text d mo y"
  shows "extract_date_from_text text = new_datetime (year_value y) (decimal mo) (decimal d)"
proof -
  from assms have found: "DATE_RE_search text = Some (d, mo, y)"
    by (simp add: DATE_RE_search_first)
  from assms obtain post where "date_groups_at post d mo y"
    unfolding first_date_match_def by blast
  then have dig: "d \<noteq> []" "list_all is_digit d" "mo \<noteq> []" "list_all is_digit mo"
      "2 \<le> length y" "list_all is_digit y"
    unfolding date_groups_at_def by auto
  from dig(5) have yne: "y \<noteq> []" by auto
  have "list_all is_digit ''20''" by (simp add: is_digit_def)
  with dig(6) have "list_all is_digit (''20'' @ y)" by (simp only: list_all_append)
  moreover have "''20'' @ y \<noteq> []" by simp
  ultimately have long: "py_int (''20'' @ y) = Some (decimal (''20'' @ y))"
    by (simp only: py_int_def if_True simp_thms)
  have short: "py_int y = Some (decimal y)" using dig(6) yne by (simp add: py_int_def)
  have "py_int (if length y = 2 then ''20'' @ y else y) = Some (year_value y)"
  proof (cases "length y = 2")
    case True
    with long show ?thesis by (simp add: year_value_def decimal_two_digit_year)
  next
    case False
    with short show ?thesis by (simp add: year_value_def)
  qed
  moreover have "py_int mo = Some (decimal mo)" using dig(3,4) by (simp add: py_int_def)
  moreover have "py_int d = Some (decimal d)" using dig(1,2) by (simp add: py_int_def)
  ultimately show ?thesis
    using found by (simp add: extract_date_from_text_def)
qed

lemma extract_no_match:
  assumes "\<forall>d mo y. \<not> first_date_match text d mo y"
  shows "extract_date_from_text text = None"
proof (cases "DATE_RE_search text")
  case None
  then show ?thesis by (simp add: extract_date_from_text_def)
next
  case (Some g)
  obtain d mo y where "g = (d, mo, y)" by (cases g)
  with Some have "first_date_match text d mo y" by (simp add: DATE_RE_search_first)
  with assms show ?thesis by blast
qed

lemma counted_date_invalid:
  "first_date_match cell d mo y \<Longrightarrow> new_datetime (year_value y) (decimal mo) (decimal d) = None
   \<Longrightarrow> counted_date cell = None"
  using extract_first_match [of cell d mo y] by (simp add: counted_date_def)

lemma scan_cells_skip: "counted_date cell = None \<Longrightarrow> scan_cells counts (cell # cols) = scan_cells counts cols"
  by (auto simp: counted_date_def split: option.splits if_splits)

lemma first_some_hit:
  "\<forall>x \<in> set pre. f x = None \<Longrightarrow> f x = Some k \<Longrightarrow> first_some f (pre @ x # post) = Some k"
  by (simp add: first_some_append)

subsection \<open>The page postbacks of a crawl\<close>

lemma fetch_page_postbacks:
  "\<forall>soup_res.
     2 < length (exchanges (snd (fetch_counts_for_ps srv d ps (make_session st))))
     \<and> snd (exchanges (snd (fetch_counts_for_ps srv d ps (make_session st))) ! 2) = Inr soup_res
     \<longrightarrow> length (exchanges (snd (fetch_counts_for_ps srv d ps (make_session st))))
           = 3 + length (ordered_page_actions soup_res)
       \<and> page_turns (snd (fetch_counts_for_ps srv d ps (make_session st)))
           = ordered_page_actions soup_res
       \<and> pages_visited (snd (fetch_counts_for_ps srv d ps (make_session st)))
           = 1 + length (filter succeeded
                   (drop 3 (exchanges (snd (fetch_counts_for_ps srv d ps (make_session st))))))
       \<and> pages_visited (snd (fetch_counts_for_ps srv d ps (make_session st)))
           \<le> 1 + length (ordered_page_actions soup_res)"
proof (intro allI impI)
  fix soup_res
  let ?run = "fetch_counts_for_ps srv d ps (make_session st)"
  assume h: "2 < length (exchanges (snd ?run)) \<and> snd (exchanges (snd ?run) ! 2) = Inr soup_res"
  have run: "?run = (fst ?run, snd ?run)" by simp
  have fresh: "exchanges (make_session st) = []" by (simp add: make_session_def)
  from fetch_search_page [OF run fresh] h obtain x1 x2 rq xs where
    ex: "exchanges (snd ?run) = x1 # x2 # (rq, Inr soup_res) # xs"
    and acts: "map (\<lambda>x. request_action (fst x)) xs = ordered_page_actions soup_res"
    by blast
  from acts have len: "length xs = length (ordered_page_actions soup_res)"
    by (metis length_map)
  have "length (filter succeeded xs) \<le> length xs" by simp
  with ex acts len show
    "length (exchanges (snd ?run)) = 3 + length (ordered_page_actions soup_res)
     \<and> page_turns (snd ?run) = ordered_page_actions soup_res
     \<and> pages_visited (snd ?run) = 1 + length (filter succeeded (drop 3 (exchanges (snd ?run))))
     \<and> pages_visited (snd ?run) \<le> 1 + length (ordered_page_actions soup_res)"
    by (simp add: page_turns_def pages_visited_def)
qed

subsection \<open>The rows of a batch\<close>

lemma task_row_worker: "worker_ps srv (init d (Some p)) (d, p) = Inr (task_row srv init (d, p))"
  by (simp add: task_row_def worker_ps_row)

lemma district_rows_tasks:
  "district_rows srv init ac d
     = (if discovered_stations srv init d = [] then [zero_row d []]
        else map (task_row srv init)
               (ac (map (\<lambda>ps_id. (d, ps_id)) (discovered_stations srv init d))))"
  unfolding district_rows_def discovered_stations_def task_row_def Let_def by (rule refl)

lemma district_rows_mset:
  assumes perm: "\<forall>ts. mset (ac ts) = mset ts" and some: "discovered_stations srv init d \<noteq> []"
  shows "mset (district_rows srv init ac d)
           = image_mset (\<lambda>p. task_row srv init (d, p)) (mset (discovered_stations srv init d))"
proof -
  let ?tasks = "map (\<lambda>ps_id. (d, ps_id)) (discovered_stations srv init d)"
  from perm have p: "mset (ac ?tasks) = mset ?tasks" by (rule spec)
  from some have "mset (district_rows srv init ac d) = image_mset (task_row srv init) (mset (ac ?tasks))"
    by (simp add: district_rows_tasks)
  also have "\<dots> = image_mset (task_row srv init) (mset ?tasks)"
    by (simp only: p)
  also have "\<dots> = image_mset (\<lambda>p. task_row srv init (d, p)) (mset (discovered_stations srv init d))"
    by (simp add: multiset.map_comp comp_def)
  finally show ?thesis .
qed

lemma main_rows:
  "mset (tl (main srv init ac)) = sum_list (map (\<lambda>k. mset (district_rows srv init ac k)) DISTRICT_IDS)"
  by (simp add: main_def mset_concat comp_def)

section \<open>The claims\<close>

subsection \<open>C9: absent elements never raise\<close>

text \<open>
  C9. No parse or absent-element condition raises: on every page
  \<open>extract_hidden_fields\<close> returns its dictionary of the four named hidden fields,
  a field whose input element is missing (or has no value) being the empty string; an
  absent results table and an absent table body give an empty list of rows.
\<close>

theorem extractors_degrade_to_empty:
  "(\<exists>h. extract_hidden_fields soup = Inr h \<and>
        map fst h = [''__VIEWSTATE'', ''__VIEWSTATEGENERATOR'', ''__EVENTVALIDATION'', ''__LASTFOCUS''] \<and>
        (\<forall>k \<in> set (map fst h).
           (soup_find_id ''input'' k soup = None \<longrightarrow> dict_get h k = []) \<and>
           (\<forall>el. soup_find_id ''input'' k soup = Some el \<longrightarrow> \<not> has_attr el ''value''
                 \<longrightarrow> dict_get h k = [])))
   \<and> (soup_find_id ''table'' ''example'' soup = None \<longrightarrow> parse_fir_rows soup = [])
   \<and> (\<forall>table. soup_find_id ''table'' ''example'' soup = Some table
         \<longrightarrow> soup_find ''tbody'' table = None \<longrightarrow> parse_fir_rows soup = [])"
proof (intro conjI)
  let ?h = "[(''__VIEWSTATE'', projr (val soup ''__VIEWSTATE'')),
             (''__VIEWSTATEGENERATOR'', projr (val soup ''__VIEWSTATEGENERATOR'')),
             (''__EVENTVALIDATION'', projr (val soup ''__EVENTVALIDATION'')),
             (''__LASTFOCUS'', projr (val soup ''__LASTFOCUS''))]"
  have eq: "extract_hidden_fields soup = Inr ?h"
    by (simp add: extract_hidden_fields_def bind_exn_def val_Inr)
  have missing: "\<And>k. soup_find_id ''input'' k soup = None \<Longrightarrow> projr (val soup k) = []"
    by (simp add: val_Inr)
  have novalue: "\<And>k el. soup_find_id ''input'' k soup = Some el \<Longrightarrow> \<not> has_attr el ''value''
                  \<Longrightarrow> projr (val soup k) = []"
    by (simp add: val_Inr has_attr_def get_attr_def)
  show "\<exists>h. extract_hidden_fields soup = Inr h \<and>
        map fst h = [''__VIEWSTATE'', ''__VIEWSTATEGENERATOR'', ''__EVENTVALIDATION'', ''__LASTFOCUS''] \<and>
        (\<forall>k \<in> set (map fst h).
           (soup_find_id ''input'' k soup = None \<longrightarrow> dict_get h k = []) \<and>
           (\<forall>el. soup_find_id ''input'' k soup = Some el \<longrightarrow> \<not> has_attr el ''value''
                 \<longrightarrow> dict_get h k = []))"
  proof (intro exI [of _ ?h] conjI)
    show "extract_hidden_fields soup = Inr ?h" by (rule eq)
    show "map fst ?h = [''__VIEWSTATE'', ''__VIEWSTATEGENERATOR'', ''__EVENTVALIDATION'', ''__LASTFOCUS'']"
      by simp
    show "\<forall>k \<in> set (map fst ?h).
           (soup_find_id ''input'' k soup = None \<longrightarrow> dict_get ?h k = []) \<and>
           (\<forall>el. soup_find_id ''input'' k soup = Some el \<longrightarrow> \<not> has_attr el ''value''
                 \<longrightarrow> dict_get ?h k = [])"
      using missing novalue by (auto simp: dict_get_def)
  qed
  show "soup_find_id ''table'' ''example'' soup = None \<longrightarrow> parse_fir_rows soup = []"
    by (simp add: parse_fir_rows_def)
  show "\<forall>table. soup_find_id ''table'' ''example'' soup = Some table
         \<longrightarrow> soup_find ''tbody'' table = None \<longrightarrow> parse_fir_rows soup = []"
    by (simp add: parse_fir_rows_def)
qed

theorem extractors_degrade_to_empty_witness:
  "soup_find_id ''input'' ''__LASTFOCUS'' landing_page = None
   \<and> (case soup_find_id ''input'' ''__EVENTVALIDATION'' landing_page of
         None \<Rightarrow> False | Some el \<Rightarrow> \<not> has_attr el ''value'')
   \<and> soup_find_id ''table'' ''example'' landing_page = None
   \<and> (case soup_find_id ''table'' ''example'' bodyless_page of
         None \<Rightarrow> False | Some table \<Rightarrow> soup_find ''tbody'' table = None)
   \<and> (\<exists>h. extract_hidden_fields landing_page = Inr h \<and> dict_get h ''__LASTFOCUS'' = []
           \<and> dict_get h ''__EVENTVALIDATION'' = [])
   \<and> parse_fir_rows landing_page = [] \<and> parse_fir_rows bodyless_page = []"
proof -
  have a: "soup_find_id ''input'' ''__LASTFOCUS'' landing_page = None"
    by code_simp
  have b: "case soup_find_id ''input'' ''__EVENTVALIDATION'' landing_page of
             None \<Rightarrow> False | Some el \<Rightarrow> \<not> has_attr el ''value''"
    by code_simp
  have c: "soup_find_id ''table'' ''example'' landing_page = None"
    by code_simp
  have d: "case soup_find_id ''table'' ''example'' bodyless_page of
             None \<Rightarrow> False | Some table \<Rightarrow> soup_find ''tbody'' table = None"
    by code_simp
  from extractors_degrade_to_empty [of landing_page] a b
  have e: "\<exists>h. extract_hidden_fields landing_page = Inr h \<and> dict_get h ''__LASTFOCUS'' = []
           \<and> dict_get h ''__EVENTVALIDATION'' = []"
    by (fastforce split: option.splits)
  from extractors_degrade_to_empty [of landing_page] c
  have f: "parse_fir_rows landing_page = []" by blast
  from extractors_degrade_to_empty [of bodyless_page] d
  have g: "parse_fir_rows bodyless_page = []" by (auto split: option.splits)
  from a b c d e f g show ?thesis by blast
qed

subsection \<open>C8: the option list\<close>

text \<open>
  C8. On every page \<open>parse_ps_options\<close> returns the values of the options of the
  police station control, stripped, without the empty value and without the unset
  value \<^verbatim>\<open>"0"\<close>, each once and in the order of first appearance; it returns the empty
  list when the page has no such control.
\<close>

theorem option_list_first_seen:
  "(soup_find_id ''select'' ''ctl00_ContentPlaceHolder1_ddlPoliceStation'' soup = None
      \<longrightarrow> parse_ps_options soup = [])
   \<and> (\<forall>sel. soup_find_id ''select'' ''ctl00_ContentPlaceHolder1_ddlPoliceStation'' soup = Some sel \<longrightarrow>
         parse_ps_options soup
           = first_seen (\<lambda>v. v) (filter (\<lambda>v. v \<noteq> [] \<and> v \<noteq> ''0'') (option_values sel))
         \<and> set (parse_ps_options soup) = {v \<in> set (option_values sel). v \<noteq> [] \<and> v \<noteq> ''0''}
         \<and> subseq (parse_ps_options soup) (option_values sel))
   \<and> distinct (parse_ps_options soup)
   \<and> [] \<notin> set (parse_ps_options soup)
   \<and> ''0'' \<notin> set (parse_ps_options soup)"
proof (cases "soup_find_id ''select'' ''ctl00_ContentPlaceHolder1_ddlPoliceStation'' soup")
  case None
  then show ?thesis by (simp add: parse_ps_options_def)
next
  case (Some sel)
  let ?vs = "filter (\<lambda>v. v \<noteq> [] \<and> v \<noteq> ''0'') (option_values sel)"
  have eq: "parse_ps_options soup = first_seen (\<lambda>v. v) ?vs"
    using Some by (simp add: parse_ps_options_def unique_loop_first_seen)
  have set_eq: "set (first_seen (\<lambda>v. v) ?vs) = set ?vs"
    using first_seen_keys [of "\<lambda>v. v" ?vs] by simp
  have dist: "distinct (first_seen (\<lambda>v. v) ?vs)"
    using first_seen_distinct [of "\<lambda>v. v" ?vs] by simp
  have "subseq (first_seen (\<lambda>v. v) ?vs) ?vs"
    by (rule first_seen_subseq)
  moreover have "subseq ?vs (option_values sel)"
    by simp
  ultimately have sub: "subseq (first_seen (\<lambda>v. v) ?vs) (option_values sel)"
    using subseq_order.order_trans by blast
  from Some eq set_eq dist sub show ?thesis by auto
qed

theorem option_list_first_seen_witness:
  "soup_find_id ''select'' ''ctl00_ContentPlaceHolder1_ddlPoliceStation'' blank_page = None
   \<and> parse_ps_options blank_page = []
   \<and> (case soup_find_id ''select'' ''ctl00_ContentPlaceHolder1_ddlPoliceStation'' landing_page of
         None \<Rightarrow> False
       | Some sel \<Rightarrow> option_values sel = [''0'', ''12'', ''7'', [], ''12''])
   \<and> parse_ps_options landing_page = [''12'', ''7'']"
proof -
  have a: "soup_find_id ''select'' ''ctl00_ContentPlaceHolder1_ddlPoliceStation'' blank_page = None"
    by code_simp
  have b: "case soup_find_id ''select'' ''ctl00_ContentPlaceHolder1_ddlPoliceStation'' landing_page of
             None \<Rightarrow> False
           | Some sel \<Rightarrow> option_values sel = [''0'', ''12'', ''7'', [], ''12'']"
    by code_simp
  from option_list_first_seen [of blank_page] a
  have c: "parse_ps_options blank_page = []" by blast
  have fs: "first_seen (\<lambda>v. v) (filter (\<lambda>v. v \<noteq> [] \<and> v \<noteq> ''0'') [''0'', ''12'', ''7'', [], ''12''])
            = [''12'', ''7'']"
    by simp
  from option_list_first_seen [of landing_page] b fs
  have d: "parse_ps_options landing_page = [''12'', ''7'']"
    by (auto split: option.splits)
  from a b c d show ?thesis by blast
qed

subsection \<open>C7: page-turn actions, each argument once\<close>

text \<open>
  C7. From the postback actions of a result page the walker keeps exactly those whose
  argument contains \<^verbatim>\<open>Page$\<close>, one per argument (the first found), in the order of
  discovery; the page postbacks a crawl sends are these actions, so no argument is
  requested twice.
\<close>

theorem page_turns_deduplicated:
  "ordered_page_actions soup
     = first_seen snd (filter (\<lambda>(t, a). sublist ''Page$'' a) (find_postback_actions soup))
   \<and> distinct (map snd (ordered_page_actions soup))
   \<and> snd ` set (ordered_page_actions soup)
       = {a. \<exists>t. (t, a) \<in> set (find_postback_actions soup) \<and> sublist ''Page$'' a}
   \<and> subseq (ordered_page_actions soup) (find_postback_actions soup)
   \<and> (\<forall>x \<in> set (ordered_page_actions soup).
         List.find (\<lambda>y. snd y = snd x)
           (filter (\<lambda>(t, a). sublist ''Page$'' a) (find_postback_actions soup)) = Some x)
   \<and> (\<forall>soup_res.
         2 < length (exchanges (snd (fetch_counts_for_ps srv d ps (make_session st))))
         \<and> snd (exchanges (snd (fetch_counts_for_ps srv d ps (make_session st))) ! 2) = Inr soup_res
         \<longrightarrow> page_turns (snd (fetch_counts_for_ps srv d ps (make_session st)))
               = ordered_page_actions soup_res
           \<and> distinct (map snd (page_turns (snd (fetch_counts_for_ps srv d ps (make_session st))))))"
proof (intro conjI allI impI ballI)
  let ?pa = "filter (\<lambda>(t, a). sublist ''Page$'' a) (find_postback_actions soup)"
  show eq: "ordered_page_actions soup = first_seen snd ?pa"
    by (rule ordered_page_actions_first_seen)
  show "distinct (map snd (ordered_page_actions soup))"
    unfolding eq by (rule first_seen_distinct)
  have "snd ` set (ordered_page_actions soup) = snd ` set ?pa"
    unfolding eq by (rule first_seen_keys)
  also have "\<dots> = {a. \<exists>t. (t, a) \<in> set (find_postback_actions soup) \<and> sublist ''Page$'' a}"
    by force
  finally show "snd ` set (ordered_page_actions soup)
       = {a. \<exists>t. (t, a) \<in> set (find_postback_actions soup) \<and> sublist ''Page$'' a}" .
  have "subseq (first_seen snd ?pa) ?pa" by (rule first_seen_subseq)
  moreover have "subseq ?pa (find_postback_actions soup)" by simp
  ultimately show "subseq (ordered_page_actions soup) (find_postback_actions soup)"
    unfolding eq using subseq_order.order_trans by blast
next
  fix x assume "x \<in> set (ordered_page_actions soup)"
  then show "List.find (\<lambda>y. snd y = snd x)
           (filter (\<lambda>(t, a). sublist ''Page$'' a) (find_postback_actions soup)) = Some x"
    by (simp add: ordered_page_actions_first_seen first_seen_first)
next
  fix soup_res
  let ?run = "fetch_counts_for_ps srv d ps (make_session st)"
  assume h: "2 < length (exchanges (snd ?run)) \<and> snd (exchanges (snd ?run) ! 2) = Inr soup_res"
  have run: "?run = (fst ?run, snd ?run)" by simp
  have fresh: "exchanges (make_session st) = []" by (simp add: make_session_def)
  from fetch_search_page [OF run fresh] h obtain x1 x2 rq xs where
    ex: "exchanges (snd ?run) = x1 # x2 # (rq, Inr soup_res) # xs"
    and acts: "map (\<lambda>x. request_action (fst x)) xs = ordered_page_actions soup_res"
    by blast
  from ex acts show turns: "page_turns (snd ?run) = ordered_page_actions soup_res"
    by (simp add: page_turns_def)
  show "distinct (map snd (page_turns (snd ?run)))"
    unfolding turns ordered_page_actions_first_seen by (rule first_seen_distinct)
qed

theorem page_turns_deduplicated_witness:
  "2 < length (exchanges (snd (fetch_counts_for_ps failing_second 1 ''7'' (make_session ()))))
   \<and> snd (exchanges (snd (fetch_counts_for_ps failing_second 1 ''7'' (make_session ()))) ! 2)
       = Inr page_hub
   \<and> page_turns (snd (fetch_counts_for_ps failing_second 1 ''7'' (make_session ())))
       = ordered_page_actions page_hub
   \<and> map snd (ordered_page_actions page_hub) = [''Page$2'', ''Page$3'']
   \<and> find_postback_actions two_pagers
       = [(''top'', ''Page$2''), (''grid'', ''Sort$Date''), (''bottom'', ''Page$2'')]
   \<and> ordered_page_actions two_pagers = [(''top'', ''Page$2'')]"
proof -
  have a: "2 < length (exchanges (snd (fetch_counts_for_ps failing_second 1 ''7'' (make_session ()))))"
    by code_simp
  have b: "snd (exchanges (snd (fetch_counts_for_ps failing_second 1 ''7'' (make_session ()))) ! 2)
       = Inr page_hub"
    by code_simp
  have c: "find_postback_actions two_pagers
       = [(''top'', ''Page$2''), (''grid'', ''Sort$Date''), (''bottom'', ''Page$2'')]"
    by code_simp
  have d: "map snd (ordered_page_actions page_hub) = [''Page$2'', ''Page$3'']"
    by code_simp
  have e: "first_seen snd (filter (\<lambda>(t, a). sublist ''Page$'' a)
             [(''top'', ''Page$2''), (''grid'', ''Sort$Date''), (''bottom'', ''Page$2'')])
           = [(''top'', ''Page$2'')]"
    by code_simp
  from page_turns_deduplicated [of page_hub failing_second 1 "''7''" "()"] a b
  have f: "page_turns (snd (fetch_counts_for_ps failing_second 1 ''7'' (make_session ())))
       = ordered_page_actions page_hub"
    by blast
  from page_turns_deduplicated [of two_pagers failing_second 1 "''7''" "()"] c e
  have g: "ordered_page_actions two_pagers = [(''top'', ''Page$2'')]"
    by simp
  from a b c d f g show ?thesis by blast
qed

subsection \<open>C1: the shape of a count row\<close>

text \<open>
  C1. The row \<open>worker_ps\<close> builds for a district and police station, and the zero
  row, consist of the two identifiers followed by exactly
  \<open>(END_YEAR - START_YEAR + 1) * 12\<close> counts, one per (year, month) bucket in
  chronological order from January of \<open>START_YEAR\<close> to December of \<open>END_YEAR\<close>. Each
  count is a non-negative integer: it is the number of ingested rows dated in that
  bucket, hence zero for a bucket without ingested row.
\<close>

theorem count_row_shape:
  "worker_ps srv st (d, ps)
     = Inr ([I d, S ps] @
            map (\<lambda>k. I (int (length (filter (\<lambda>r. row_bucket r = Some k)
                     (ingested_rows (snd (fetch_counts_for_ps srv d ps (make_session st))))))))
                buckets)
   \<and> zero_row d p = [I d, S p] @ map (\<lambda>k. I 0) buckets
   \<and> length buckets = nat ((END_YEAR - START_YEAR + 1) * 12)
   \<and> (\<forall>i < length buckets. buckets ! i = (START_YEAR + int (i div 12), 1 + int (i mod 12)))
   \<and> (\<forall>row. worker_ps srv st (d, ps) = Inr row \<or> row = zero_row d p \<longrightarrow>
         length (drop 2 row) = nat ((END_YEAR - START_YEAR + 1) * 12)
         \<and> (\<forall>f \<in> set (drop 2 row). \<exists>n. f = I n \<and> 0 \<le> n))
   \<and> (\<forall>i < length buckets.
         (\<forall>r \<in> set (ingested_rows (snd (fetch_counts_for_ps srv d ps (make_session st)))).
            row_bucket r \<noteq> Some (buckets ! i))
         \<longrightarrow> (\<forall>row. worker_ps srv st (d, ps) = Inr row \<or> row = zero_row d p
                 \<longrightarrow> row ! (2 + i) = I 0))"
proof -
  let ?rows = "ingested_rows (snd (fetch_counts_for_ps srv d ps (make_session st)))"
  let ?cnt = "\<lambda>k. I (int (length (filter (\<lambda>r. row_bucket r = Some k) ?rows)))"
  have w: "worker_ps srv st (d, ps) = Inr ([I d, S ps] @ map ?cnt buckets)"
    by (rule worker_ps_row)
  have z: "zero_row d p = [I d, S p] @ map (\<lambda>k. I 0) buckets"
    by (rule zero_row_buckets)
  have len: "length buckets = nat ((END_YEAR - START_YEAR + 1) * 12)"
    by (simp add: length_buckets START_YEAR_def END_YEAR_def)
  have nth: "\<forall>i < length buckets. buckets ! i = (START_YEAR + int (i div 12), 1 + int (i mod 12))"
    by (simp add: length_buckets nth_buckets)
  have shape: "length (drop 2 row) = nat ((END_YEAR - START_YEAR + 1) * 12)
         \<and> (\<forall>f \<in> set (drop 2 row). \<exists>n. f = I n \<and> 0 \<le> n)"
    if "worker_ps srv st (d, ps) = Inr row \<or> row = zero_row d p" for row
  proof -
    from that w z consider "row = [I d, S ps] @ map ?cnt buckets"
      | "row = [I d, S p] @ map (\<lambda>k. I 0) buckets"
      by auto
    then show ?thesis
    proof cases
      case 1
      then have "drop 2 row = map ?cnt buckets" by simp
      with len show ?thesis by auto
    next
      case 2
      then have "drop 2 row = map (\<lambda>k. I 0) buckets" by simp
      with len show ?thesis by auto
    qed
  qed
  have zero: "row ! (2 + i) = I 0"
    if i: "i < length buckets"
      and none: "\<forall>r \<in> set ?rows. row_bucket r \<noteq> Some (buckets ! i)"
      and row: "worker_ps srv st (d, ps) = Inr row \<or> row = zero_row d p" for i row
  proof -
    from none have "filter (\<lambda>r. row_bucket r = Some (buckets ! i)) ?rows = []"
      by (simp add: filter_empty_conv)
    then have c: "?cnt (buckets ! i) = I 0" by simp
    from row w z consider "row = [I d, S ps] @ map ?cnt buckets"
      | "row = [I d, S p] @ map (\<lambda>k. I 0) buckets"
      by auto
    then show ?thesis
    proof cases
      case 1
      then have "row ! (2 + i) = map ?cnt buckets ! i" by simp
      also have "\<dots> = ?cnt (buckets ! i)" using i by (rule nth_map)
      finally show ?thesis using c by simp
    next
      case 2
      then have "row ! (2 + i) = map (\<lambda>k. I 0) buckets ! i" by simp
      also have "\<dots> = I 0" using i by (simp only: nth_map)
      finally show ?thesis .
    qed
  qed
  from w z len nth shape zero show ?thesis by blast
qed

theorem count_row_shape_witness:
  "0 < length buckets
   \<and> buckets ! 0 = (2014, 1)
   \<and> ingested_rows (snd (fetch_counts_for_ps three_pages 1 ''7'' (make_session ())))
       = [[''1'', ''A'', ''05/03/2021''], [''2'', ''B'', ''06/04/2022'']]
   \<and> (\<exists>row. worker_ps three_pages () (1, ''7'') = Inr row
          \<and> length (drop 2 row) = 144 \<and> row ! 2 = I 0
          \<and> row ! 88 = I 1)"
proof -
  let ?run = "snd (fetch_counts_for_ps three_pages 1 ''7'' (make_session ()))"
  note inst = count_row_shape [of three_pages "()" 1 "''7''" "[]"]
  have rows: "ingested_rows ?run = [[''1'', ''A'', ''05/03/2021''], [''2'', ''B'', ''06/04/2022'']]"
    by code_simp
  have b1: "row_bucket [''1'', ''A'', ''05/03/2021''] = Some (2021, 3)"
    by code_simp
  have b2: "row_bucket [''2'', ''B'', ''06/04/2022''] = Some (2022, 4)"
    by code_simp
  from inst have len: "length buckets = 144"
    by (simp add: START_YEAR_def END_YEAR_def)
  then have pos: "0 < length buckets" and l86: "86 < length buckets" by simp_all
  from inst pos have k0: "buckets ! 0 = (2014, 1)"
    by (simp add: START_YEAR_def)
  from inst l86 have "buckets ! 86 = (START_YEAR + int (86 div 12), 1 + int (86 mod 12))"
    by blast
  then have k86: "buckets ! 86 = (2021, 3)"
    by (simp add: START_YEAR_def)
  have none: "\<forall>r \<in> set (ingested_rows ?run). row_bucket r \<noteq> Some (buckets ! 0)"
    by (simp add: rows b1 b2 k0)
  obtain row where row: "worker_ps three_pages () (1, ''7'') = Inr row"
    using inst by blast
  from inst row have l: "length (drop 2 row) = 144"
    by (simp add: START_YEAR_def END_YEAR_def)
  from inst pos none row have r0: "row ! (2 + 0) = I 0"
    by blast
  from inst row have "row = [I 1, S ''7''] @
            map (\<lambda>k. I (int (length (filter (\<lambda>r. row_bucket r = Some k) (ingested_rows ?run)))))
                buckets"
    by simp
  then have "row ! (2 + 86) = I (int (length (filter (\<lambda>r. row_bucket r = Some (buckets ! 86))
                                  (ingested_rows ?run))))"
    using l86 by (simp del: upt.simps)
  then have r88: "row ! 88 = I 1"
    by (simp add: rows b1 b2 k86)
  from pos k0 rows row l r0 r88 show ?thesis by simp
qed

subsection \<open>C2: which pages the walker visits\<close>

text \<open>
  C2. Given a sequence of result pages of which the last offers no page turn, the
  walker is to visit every page of the sequence, as the comment above
  \<open>fetch_counts_for_ps\<close> says (\<^verbatim>\<open>fetch counts across all pages\<close>). The code does
  not: it reads the page-turn actions off the first result page only. On the site
  \<open>three_pages\<close>, whose first page links to the second only and whose second page
  links to the third only, the crawl fetches the first and the second page and never
  asks for the third, although the site would serve it.
\<close>

theorem walker_misses_third_page:
  "ordered_page_actions page_three = []
   \<and> fst (three_pages () (POST (page_payload ''ctl00$ContentPlaceHolder1$example'' ''Page$2'' [] 1 ''7'')))
       = Inr page_two
   \<and> fst (three_pages () (POST (page_payload ''ctl00$ContentPlaceHolder1$example'' ''Page$3'' [] 1 ''7'')))
       = Inr page_three
   \<and> map snd (ordered_page_actions page_two) = [''Page$3'']
   \<and> map snd (exchanges three_pages_run) = [Inr blank_page, Inr blank_page, Inr page_one, Inr page_two]
   \<and> pages_visited three_pages_run = 2"
  by code_simp

subsection \<open>C4: a failed page postback\<close>

text \<open>
  C4, as amended. When a page postback raises, the walker skips that page and goes
  on: the hidden fields and the counts are as before the call, every remaining page
  action is still attempted, and no count aggregated so far is lost.
  The claim as stated fails: after the failed postback of \<^verbatim>\<open>Page$2\<close> the walker
  still sends the postback of \<^verbatim>\<open>Page$3\<close>.
\<close>

theorem failed_page_turn_is_skipped:
  "do_post srv (page_payload tgt arg h d ps) s = (Inl e, s2) \<longrightarrow>
     page_loop srv d ps ((tgt, arg) # acts) (h, c, s) = page_loop srv d ps acts (h, c, s2)
     \<and> map (\<lambda>x. request_action (fst x))
           (drop (length (exchanges s2))
              (exchanges (snd (snd (page_loop srv d ps ((tgt, arg) # acts) (h, c, s))))))
         = acts
     \<and> (\<forall>k. counter_get c k
              \<le> counter_get (fst (snd (page_loop srv d ps ((tgt, arg) # acts) (h, c, s)))) k)"
proof
  assume post: "do_post srv (page_payload tgt arg h d ps) s = (Inl e, s2)"
  then have step: "page_loop srv d ps ((tgt, arg) # acts) (h, c, s) = page_loop srv d ps acts (h, c, s2)"
    by simp
  obtain h1 c1 s1 where rest: "page_loop srv d ps acts (h, c, s2) = (h1, c1, s1)"
    by (cases "page_loop srv d ps acts (h, c, s2)")
  from page_loop_trace [OF rest] obtain xs where xs:
    "exchanges s1 = exchanges s2 @ xs"
    "map (\<lambda>x. request_action (fst x)) xs = acts"
    "\<forall>k. counter_get c1 k = counter_get c k
            + int (length (filter (\<lambda>r. row_bucket r = Some k) (concat (map response_rows xs))))"
    by blast
  from xs(3) have mono: "\<forall>k. counter_get c k \<le> counter_get c1 k"
    by simp
  from step rest xs(1,2) mono
  show "page_loop srv d ps ((tgt, arg) # acts) (h, c, s) = page_loop srv d ps acts (h, c, s2)
     \<and> map (\<lambda>x. request_action (fst x))
           (drop (length (exchanges s2))
              (exchanges (snd (snd (page_loop srv d ps ((tgt, arg) # acts) (h, c, s))))))
         = acts
     \<and> (\<forall>k. counter_get c k
              \<le> counter_get (fst (snd (page_loop srv d ps ((tgt, arg) # acts) (h, c, s)))) k)"
    by simp
qed

theorem failed_page_turn_is_skipped_witness:
  "do_post failing_second (page_payload ''grid'' ''Page$2'' [] 1 ''7'') (make_session ())
     = (Inl RequestException,
        \<lparr>site = (), exchanges = [(POST (page_payload ''grid'' ''Page$2'' [] 1 ''7''), Inl RequestException)]\<rparr>)
   \<and> map (\<lambda>x. request_action (fst x))
         (drop 1 (exchanges (snd (snd (page_loop failing_second 1 ''7''
                                  [(''grid'', ''Page$2''), (''grid'', ''Page$3'')]
                                  ([], Map.empty, make_session ()))))))
       = [(''grid'', ''Page$3'')]
   \<and> 0 \<le> counter_get (fst (snd (page_loop failing_second 1 ''7''
                                  [(''grid'', ''Page$2''), (''grid'', ''Page$3'')]
                                  ([], Map.empty, make_session ())))) (2023, 5)"
proof -
  let ?s2 = "\<lparr>site = (), exchanges = [(POST (page_payload ''grid'' ''Page$2'' [] 1 ''7''), Inl RequestException)]\<rparr>"
  have a: "do_post failing_second (page_payload ''grid'' ''Page$2'' [] 1 ''7'') (make_session ())
     = (Inl RequestException, ?s2)"
    by code_simp
  from failed_page_turn_is_skipped
         [of failing_second "''grid''" "''Page$2''" "[]" 1 "''7''" "make_session ()"
             RequestException ?s2 "[(''grid'', ''Page$3'')]" Map.empty] a
  have "map (\<lambda>x. request_action (fst x))
         (drop (length (exchanges ?s2))
            (exchanges (snd (snd (page_loop failing_second 1 ''7''
                                  [(''grid'', ''Page$2''), (''grid'', ''Page$3'')]
                                  ([], Map.empty, make_session ()))))))
       = [(''grid'', ''Page$3'')]
     \<and> counter_get Map.empty (2023, 5)
         \<le> counter_get (fst (snd (page_loop failing_second 1 ''7''
                                  [(''grid'', ''Page$2''), (''grid'', ''Page$3'')]
                                  ([], Map.empty, make_session ())))) (2023, 5)"
    by blast
  then have "map (\<lambda>x. request_action (fst x))
         (drop 1 (exchanges (snd (snd (page_loop failing_second 1 ''7''
                                  [(''grid'', ''Page$2''), (''grid'', ''Page$3'')]
                                  ([], Map.empty, make_session ()))))))
       = [(''grid'', ''Page$3'')]
     \<and> 0 \<le> counter_get (fst (snd (page_loop failing_second 1 ''7''
                                  [(''grid'', ''Page$2''), (''grid'', ''Page$3'')]
                                  ([], Map.empty, make_session ())))) (2023, 5)"
    by (simp add: counter_get_empty)
  with a show ?thesis by blast
qed

theorem walker_continues_after_failure:
  "snd (exchanges failing_second_run ! 3) = Inl RequestException
   \<and> request_action (fst (exchanges failing_second_run ! 3))
       = (''ctl00$ContentPlaceHolder1$example'', ''Page$2'')
   \<and> length (exchanges failing_second_run) = 5
   \<and> request_action (fst (exchanges failing_second_run ! 4))
       = (''ctl00$ContentPlaceHolder1$example'', ''Page$3'')
   \<and> snd (exchanges failing_second_run ! 4) = Inr page_three"
  by code_simp

subsection \<open>C6: the date extractor\<close>

text \<open>
  C6, as amended. \<open>extract_date_from_text\<close> reads the leftmost occurrence of the
  pattern day, separator, month, separator, year, where day and month have one or two
  digits, a separator is one of \<^verbatim>\<open>.\<close>, \<^verbatim>\<open>/\<close> and \<^verbatim>\<open>-\<close>, and the year has two to four
  digits, as many as are there. A year of exactly two digits is read in the century
  2000, a year of three or four digits as it stands. The result is that calendar date
  when it exists, and nothing when it does not or when the pattern does not occur.
  The three examples of the specification hold. The claim as stated, with a year of
  two or of four digits, fails on \<^verbatim>\<open>1/2/123\<close>.
\<close>

theorem date_extractor_first_match:
  "((\<forall>d mo y. \<not> first_date_match s d mo y) \<longrightarrow> extract_date_from_text s = None)
   \<and> (first_date_match s d mo y
        \<and> 1 \<le> year_value y \<and> year_value y \<le> 9999
        \<and> 1 \<le> decimal mo \<and> decimal mo \<le> 12
        \<and> 1 \<le> decimal d \<and> decimal d \<le> days_in_month (year_value y) (decimal mo)
       \<longrightarrow> extract_date_from_text s
             = Some \<lparr>year = year_value y, month = decimal mo, day = decimal d\<rparr>)
   \<and> (first_date_match s d mo y
        \<and> \<not> (1 \<le> year_value y \<and> year_value y \<le> 9999
              \<and> 1 \<le> decimal mo \<and> decimal mo \<le> 12
              \<and> 1 \<le> decimal d \<and> decimal d \<le> days_in_month (year_value y) (decimal mo))
       \<longrightarrow> extract_date_from_text s = None)
   \<and> extract_date_from_text ''FIR No 12, dated 05/03/21, PS X''
       = Some \<lparr>year = 2021, month = 3, day = 5\<rparr>
   \<and> extract_date_from_text ''31/02/2023 invalid'' = None
   \<and> extract_date_from_text ''3-14-2022'' = None"
proof (intro conjI impI)
  assume "\<forall>d mo y. \<not> first_date_match s d mo y"
  then show "extract_date_from_text s = None" by (rule extract_no_match)
next
  assume h: "first_date_match s d mo y
        \<and> 1 \<le> year_value y \<and> year_value y \<le> 9999
        \<and> 1 \<le> decimal mo \<and> decimal mo \<le> 12
        \<and> 1 \<le> decimal d \<and> decimal d \<le> days_in_month (year_value y) (decimal mo)"
  then have "extract_date_from_text s = new_datetime (year_value y) (decimal mo) (decimal d)"
    by (simp add: extract_first_match)
  with h show "extract_date_from_text s
             = Some \<lparr>year = year_value y, month = decimal mo, day = decimal d\<rparr>"
    by (simp add: new_datetime_def)
next
  assume h: "first_date_match s d mo y
        \<and> \<not> (1 \<le> year_value y \<and> year_value y \<le> 9999
              \<and> 1 \<le> decimal mo \<and> decimal mo \<le> 12
              \<and> 1 \<le> decimal d \<and> decimal d \<le> days_in_month (year_value y) (decimal mo))"
  then have "extract_date_from_text s = new_datetime (year_value y) (decimal mo) (decimal d)"
    by (simp add: extract_first_match)
  with h show "extract_date_from_text s = None"
    by (simp only: new_datetime_def if_False)
next
  show "extract_date_from_text ''FIR No 12, dated 05/03/21, PS X''
       = Some \<lparr>year = 2021, month = 3, day = 5\<rparr>"
    by code_simp
next
  show "extract_date_from_text ''31/02/2023 invalid'' = None"
    by code_simp
next
  show "extract_date_from_text ''3-14-2022'' = None"
    by code_simp
qed

theorem date_extractor_first_match_witness:
  "first_date_match ''PS X 7.11.2019 and 1/1/2020'' ''7'' ''11'' ''2019''
   \<and> extract_date_from_text ''PS X 7.11.2019 and 1/1/2020''
       = Some \<lparr>year = 2019, month = 11, day = 7\<rparr>
   \<and> first_date_match ''31/02/2023 invalid'' ''31'' ''02'' ''2023''
   \<and> extract_date_from_text ''31/02/2023 invalid'' = None
   \<and> first_date_match ''1/2/123'' ''1'' ''2'' ''123''
   \<and> extract_date_from_text ''1/2/123'' = Some \<lparr>year = 123, month = 2, day = 1\<rparr>
   \<and> (\<forall>d mo y. \<not> first_date_match ''no date, 12/2020'' d mo y)
   \<and> extract_date_from_text ''no date, 12/2020'' = None"
proof -
  have "DATE_RE_search ''PS X 7.11.2019 and 1/1/2020'' = Some (''7'', ''11'', ''2019'')"
    by code_simp
  then have a: "first_date_match ''PS X 7.11.2019 and 1/1/2020'' ''7'' ''11'' ''2019''"
    by (simp only: DATE_RE_search_first)
  have av: "year_value ''2019'' = 2019 \<and> decimal ''11'' = 11 \<and> decimal ''7'' = 7
            \<and> days_in_month 2019 11 = 30"
    by code_simp
  from date_extractor_first_match
         [of "''PS X 7.11.2019 and 1/1/2020''" "''7''" "''11''" "''2019''"] a av
  have b: "extract_date_from_text ''PS X 7.11.2019 and 1/1/2020''
       = Some \<lparr>year = 2019, month = 11, day = 7\<rparr>"
    by simp
  have "DATE_RE_search ''31/02/2023 invalid'' = Some (''31'', ''02'', ''2023'')"
    by code_simp
  then have c: "first_date_match ''31/02/2023 invalid'' ''31'' ''02'' ''2023''"
    by (simp only: DATE_RE_search_first)
  have cv: "year_value ''2023'' = 2023 \<and> decimal ''02'' = 2 \<and> decimal ''31'' = 31
            \<and> days_in_month 2023 2 = 28"
    by code_simp
  from date_extractor_first_match
         [of "''31/02/2023 invalid''" "''31''" "''02''" "''2023''"] c cv
  have d: "extract_date_from_text ''31/02/2023 invalid'' = None"
    by simp
  have "DATE_RE_search ''1/2/123'' = Some (''1'', ''2'', ''123'')"
    by code_simp
  then have e: "first_date_match ''1/2/123'' ''1'' ''2'' ''123''"
    by (simp only: DATE_RE_search_first)
  have ev: "year_value ''123'' = 123 \<and> decimal ''2'' = 2 \<and> decimal ''1'' = 1
            \<and> days_in_month 123 2 = 28"
    by code_simp
  from date_extractor_first_match [of "''1/2/123''" "''1''" "''2''" "''123''"] e ev
  have f: "extract_date_from_text ''1/2/123'' = Some \<lparr>year = 123, month = 2, day = 1\<rparr>"
    by simp
  have none: "DATE_RE_search ''no date, 12/2020'' = None"
    by code_simp
  have g: "\<forall>d mo y. \<not> first_date_match ''no date, 12/2020'' d mo y"
  proof (intro allI notI)
    fix d mo y assume "first_date_match ''no date, 12/2020'' d mo y"
    then have "DATE_RE_search ''no date, 12/2020'' = Some (d, mo, y)"
      by (simp only: DATE_RE_search_first)
    with none show False by simp
  qed
  from date_extractor_first_match [of "''no date, 12/2020''"] g
  have h: "extract_date_from_text ''no date, 12/2020'' = None"
    by blast
  from a b c d e f g h show ?thesis by (intro conjI)
qed

theorem three_digit_year_accepted:
  "extract_date_from_text ''1/2/123'' = Some \<lparr>year = 123, month = 2, day = 1\<rparr>
   \<and> spec_extract_date ''1/2/123'' = Some \<lparr>year = 2012, month = 2, day = 1\<rparr>"
  by code_simp

subsection \<open>C10: an invalid first match in a cell\<close>

text \<open>
  C10. Only the leftmost occurrence of the date pattern in a cell is examined. When
  it is not a calendar date the cell gives no date, whatever follows it in the cell,
  and the scan of the row goes on with the next cells.
\<close>

theorem invalid_first_match_hides_cell:
  "first_date_match cell d mo y \<and> new_datetime (year_value y) (decimal mo) (decimal d) = None
   \<longrightarrow> extract_date_from_text cell = None
       \<and> scan_cells counts (cell # cols) = scan_cells counts cols"
proof
  assume h: "first_date_match cell d mo y
             \<and> new_datetime (year_value y) (decimal mo) (decimal d) = None"
  then have m: "first_date_match cell d mo y"
    and inv: "new_datetime (year_value y) (decimal mo) (decimal d) = None"
    by simp_all
  from extract_first_match [OF m] inv have "extract_date_from_text cell = None"
    by simp
  moreover from m inv have "counted_date cell = None"
    by (rule counted_date_invalid)
  then have "scan_cells counts (cell # cols) = scan_cells counts cols"
    by (rule scan_cells_skip)
  ultimately show "extract_date_from_text cell = None
       \<and> scan_cells counts (cell # cols) = scan_cells counts cols"
    by (intro conjI)
qed

theorem invalid_first_match_hides_cell_witness:
  "first_date_match ''31/02/2023 then 05/03/2021'' ''31'' ''02'' ''2023''
   \<and> new_datetime (year_value ''2023'') (decimal ''02'') (decimal ''31'') = None
   \<and> extract_date_from_text ''05/03/2021'' = Some \<lparr>year = 2021, month = 3, day = 5\<rparr>
   \<and> extract_date_from_text ''31/02/2023 then 05/03/2021'' = None
   \<and> counter_get (scan_cells Map.empty [''31/02/2023 then 05/03/2021'', ''06/04/2022'']) (2022, 4) = 1
   \<and> counter_get (scan_cells Map.empty [''31/02/2023 then 05/03/2021'', ''06/04/2022'']) (2021, 3) = 0"
proof -
  have "DATE_RE_search ''31/02/2023 then 05/03/2021'' = Some (''31'', ''02'', ''2023'')"
    by code_simp
  then have a: "first_date_match ''31/02/2023 then 05/03/2021'' ''31'' ''02'' ''2023''"
    by (simp only: DATE_RE_search_first)
  have b: "new_datetime (year_value ''2023'') (decimal ''02'') (decimal ''31'') = None"
    by code_simp
  have c: "extract_date_from_text ''05/03/2021'' = Some \<lparr>year = 2021, month = 3, day = 5\<rparr>"
    by code_simp
  note inst = invalid_first_match_hides_cell
                [of "''31/02/2023 then 05/03/2021''" "''31''" "''02''" "''2023''" Map.empty
                    "[''06/04/2022'']"]
  from inst a b have d: "extract_date_from_text ''31/02/2023 then 05/03/2021'' = None"
    by blast
  from inst a b
  have skip: "scan_cells Map.empty [''31/02/2023 then 05/03/2021'', ''06/04/2022'']
                = scan_cells Map.empty [''06/04/2022'']"
    by blast
  have e: "counter_get (scan_cells Map.empty [''06/04/2022'']) (2022, 4) = 1"
    by code_simp
  have f: "counter_get (scan_cells Map.empty [''06/04/2022'']) (2021, 3) = 0"
    by code_simp
  from a b c d e f show ?thesis unfolding skip by (intro conjI)
qed

subsection \<open>C3: one count per row\<close>

text \<open>
  C3, as amended. The scan of a row goes through the cells in order and stops at the
  first cell that is counted, that is, whose leftmost date is a calendar date with a
  year from \<open>START_YEAR\<close> to \<open>END_YEAR\<close>; it adds one to the bucket of that date.
  A cell whose date is invalid or out of range does not end the scan. A row adds at
  most one count, and none when no cell is counted.
  The claim as stated fails: a date out of range in an earlier cell does not stop the
  scan, and a later cell of the row is counted.
\<close>

theorem row_counted_at_first_countable_cell:
  "(cols = pre @ cell # post \<and> (\<forall>c \<in> set pre. counted_date c = None) \<and> counted_date cell = Some k
      \<longrightarrow> scan_cells counts cols = counter_incr counts k)
   \<and> ((\<forall>c \<in> set cols. counted_date c = None) \<longrightarrow> scan_cells counts cols = counts)
   \<and> (scan_cells counts cols = counts \<or> (\<exists>j. scan_cells counts cols = counter_incr counts j))
   \<and> (\<forall>j. counter_get counts j \<le> counter_get (scan_cells counts cols) j
          \<and> counter_get (scan_cells counts cols) j \<le> counter_get counts j + 1)
   \<and> (counted_date cell = Some k
        \<longleftrightarrow> (\<exists>dt. extract_date_from_text cell = Some dt
                 \<and> START_YEAR \<le> year dt \<and> year dt \<le> END_YEAR \<and> k = (year dt, month dt)))"
proof (intro conjI impI allI)
  assume h: "cols = pre @ cell # post \<and> (\<forall>c \<in> set pre. counted_date c = None)
             \<and> counted_date cell = Some k"
  then have "row_bucket cols = Some k"
    by (simp add: row_bucket_def first_some_hit)
  then show "scan_cells counts cols = counter_incr counts k"
    by (simp add: scan_cells_row_bucket)
next
  assume "\<forall>c \<in> set cols. counted_date c = None"
  then have "row_bucket cols = None"
    by (simp add: row_bucket_def first_some_None)
  then show "scan_cells counts cols = counts"
    by (simp add: scan_cells_row_bucket)
next
  show "scan_cells counts cols = counts \<or> (\<exists>j. scan_cells counts cols = counter_incr counts j)"
  proof (cases "row_bucket cols")
    case None
    then show ?thesis by (simp add: scan_cells_row_bucket)
  next
    case (Some b)
    then have "scan_cells counts cols = counter_incr counts b"
      by (simp add: scan_cells_row_bucket)
    then show ?thesis by blast
  qed
next
  fix j
  show "counter_get counts j \<le> counter_get (scan_cells counts cols) j"
    by (cases "row_bucket cols") (simp_all add: scan_cells_row_bucket counter_get_incr)
  show "counter_get (scan_cells counts cols) j \<le> counter_get counts j + 1"
    by (cases "row_bucket cols") (simp_all add: scan_cells_row_bucket counter_get_incr)
next
  show "counted_date cell = Some k
        \<longleftrightarrow> (\<exists>dt. extract_date_from_text cell = Some dt
                 \<and> START_YEAR \<le> year dt \<and> year dt \<le> END_YEAR \<and> k = (year dt, month dt))"
    by (auto simp: counted_date_def split: option.splits)
qed

theorem row_counted_at_first_countable_cell_witness:
  "counted_date ''01/01/2010'' = None \<and> counted_date ''x'' = None
   \<and> counted_date ''05/03/2021'' = Some (2021, 3)
   \<and> scan_cells Map.empty [''01/01/2010'', ''x'', ''05/03/2021'', ''06/04/2022'']
       = counter_incr Map.empty (2021, 3)
   \<and> counted_date ''31/02/2023'' = None
   \<and> scan_cells Map.empty [''x'', ''31/02/2023''] = Map.empty"
proof -
  have a: "counted_date ''01/01/2010'' = None" by code_simp
  have b: "counted_date ''x'' = None" by code_simp
  have c: "counted_date ''05/03/2021'' = Some (2021, 3)" by code_simp
  have d: "counted_date ''31/02/2023'' = None" by code_simp
  have split: "[''01/01/2010'', ''x'', ''05/03/2021'', ''06/04/2022'']
                 = [''01/01/2010'', ''x''] @ ''05/03/2021'' # [''06/04/2022'']"
    by simp
  from a b have pre: "\<forall>c \<in> set [''01/01/2010'', ''x'']. counted_date c = None"
    by simp
  from row_counted_at_first_countable_cell
         [of "[''01/01/2010'', ''x'', ''05/03/2021'', ''06/04/2022'']" "[''01/01/2010'', ''x'']"
             "''05/03/2021''" "[''06/04/2022'']" "(2021, 3)" Map.empty]
       split pre c
  have e: "scan_cells Map.empty [''01/01/2010'', ''x'', ''05/03/2021'', ''06/04/2022'']
       = counter_incr Map.empty (2021, 3)"
    by blast
  from b d have all: "\<forall>c \<in> set [''x'', ''31/02/2023'']. counted_date c = None"
    by simp
  from row_counted_at_first_countable_cell [of "[''x'', ''31/02/2023'']" _ _ _ _ Map.empty] all
  have f: "scan_cells Map.empty [''x'', ''31/02/2023''] = Map.empty"
    by blast
  from a b c d e f show ?thesis by (intro conjI)
qed

theorem scan_passes_out_of_range_date:
  "DATE_RE_search ''01/01/2010'' = Some (''01'', ''01'', ''2010'')
   \<and> extract_date_from_text ''01/01/2010'' = Some \<lparr>year = 2010, month = 1, day = 1\<rparr>
   \<and> counter_get (spec_ingest Map.empty [''01/01/2010'', ''05/03/2021'']) (2021, 3) = 0
   \<and> counter_get (scan_cells Map.empty [''01/01/2010'', ''05/03/2021'']) (2021, 3) = 1"
  by code_simp

subsection \<open>C5: failures become zero rows\<close>

text \<open>
  C5. A crawl whose \<open>fetch_counts_for_ps\<close> raises is turned by \<open>worker_ps\<close> into
  the zero row of its district and police station, and \<open>worker_ps\<close> itself always
  returns a row; a district whose discovery raises or finds no police station gets the
  single zero row with the empty police station marker. No failure aborts the batch:
  when each submitted task completes once, the rows written for a district are one
  row per discovered police station, the worker's row of that station, which is the
  zero row where its crawl raised and is written next to the rows of its siblings;
  and the output of \<open>main\<close> after the header consists of the rows of all the
  districts of \<open>DISTRICT_IDS\<close>, none left out.
\<close>

theorem failures_become_zero_rows:
  "(\<forall>e. fst (fetch_counts_for_ps srv d ps (make_session st)) = Inl e
        \<longrightarrow> worker_ps srv st (d, ps) = Inr (zero_row d ps))
   \<and> (\<exists>row. worker_ps srv st (d, ps) = Inr row)
   \<and> ((\<exists>e. fst (get_ps_for_district srv d (make_session (init d None))) = Inl e)
        \<or> fst (get_ps_for_district srv d (make_session (init d None))) = Inr []
      \<longrightarrow> district_rows srv init ac d = [zero_row d []])
   \<and> zero_row d ps = [I d, S ps] @ replicate 144 (I 0)
   \<and> ((\<forall>ts. mset (ac ts) = mset ts) \<longrightarrow>
        (discovered_stations srv init d \<noteq> [] \<longrightarrow>
           mset (district_rows srv init ac d)
             = image_mset (\<lambda>p. task_row srv init (d, p)) (mset (discovered_stations srv init d))
           \<and> length (district_rows srv init ac d) = length (discovered_stations srv init d))
        \<and> (\<forall>p \<in> set (discovered_stations srv init d).
              worker_ps srv (init d (Some p)) (d, p) = Inr (task_row srv init (d, p))
              \<and> task_row srv init (d, p) \<in> set (district_rows srv init ac d)
              \<and> ((\<exists>e. fst (fetch_counts_for_ps srv d p (make_session (init d (Some p)))) = Inl e)
                   \<longrightarrow> task_row srv init (d, p) = zero_row d p))
        \<and> (\<forall>k \<in> set DISTRICT_IDS. \<exists>row \<in> set (main srv init ac). take 1 row = [I k]))
   \<and> (\<forall>k \<in> set DISTRICT_IDS. set (district_rows srv init ac k) \<subseteq> set (main srv init ac))
   \<and> mset (tl (main srv init ac))
       = sum_list (map (\<lambda>k. mset (district_rows srv init ac k)) DISTRICT_IDS)"
proof -
  have A: "\<forall>e. fst (fetch_counts_for_ps srv d ps (make_session st)) = Inl e
        \<longrightarrow> worker_ps srv st (d, ps) = Inr (zero_row d ps)"
    by (auto intro: worker_ps_failed)
  have B: "\<exists>row. worker_ps srv st (d, ps) = Inr row"
    by (simp add: worker_ps_row)
  have C: "(\<exists>e. fst (get_ps_for_district srv d (make_session (init d None))) = Inl e)
        \<or> fst (get_ps_for_district srv d (make_session (init d None))) = Inr []
      \<longrightarrow> district_rows srv init ac d = [zero_row d []]"
    by (auto simp: district_rows_def)
  have D: "zero_row d ps = [I d, S ps] @ replicate 144 (I 0)"
    by (simp add: zero_row_def length_MONTH_COLS)
  have E: "(discovered_stations srv init d \<noteq> [] \<longrightarrow>
           mset (district_rows srv init ac d)
             = image_mset (\<lambda>p. task_row srv init (d, p)) (mset (discovered_stations srv init d))
           \<and> length (district_rows srv init ac d) = length (discovered_stations srv init d))
        \<and> (\<forall>p \<in> set (discovered_stations srv init d).
              worker_ps srv (init d (Some p)) (d, p) = Inr (task_row srv init (d, p))
              \<and> task_row srv init (d, p) \<in> set (district_rows srv init ac d)
              \<and> ((\<exists>e. fst (fetch_counts_for_ps srv d p (make_session (init d (Some p)))) = Inl e)
                   \<longrightarrow> task_row srv init (d, p) = zero_row d p))
        \<and> (\<forall>k \<in> set DISTRICT_IDS. \<exists>row \<in> set (main srv init ac). take 1 row = [I k])"
    if perm: "\<forall>ts. mset (ac ts) = mset ts"
  proof (intro conjI impI ballI)
    assume some: "discovered_stations srv init d \<noteq> []"
    show m: "mset (district_rows srv init ac d)
             = image_mset (\<lambda>p. task_row srv init (d, p)) (mset (discovered_stations srv init d))"
      by (rule district_rows_mset [OF perm some])
    from arg_cong [OF m, of size]
    show "length (district_rows srv init ac d) = length (discovered_stations srv init d)"
      by simp
  next
    fix p assume p: "p \<in> set (discovered_stations srv init d)"
    show "worker_ps srv (init d (Some p)) (d, p) = Inr (task_row srv init (d, p))"
      by (rule task_row_worker)
    from p have some: "discovered_stations srv init d \<noteq> []" by auto
    from p have "task_row srv init (d, p)
                   \<in># image_mset (\<lambda>p. task_row srv init (d, p)) (mset (discovered_stations srv init d))"
      by simp
    then have "task_row srv init (d, p) \<in># mset (district_rows srv init ac d)"
      by (simp only: district_rows_mset [OF perm some])
    then show "task_row srv init (d, p) \<in> set (district_rows srv init ac d)"
      by simp
  next
    fix p
    assume "\<exists>e. fst (fetch_counts_for_ps srv d p (make_session (init d (Some p)))) = Inl e"
    then obtain e where "fst (fetch_counts_for_ps srv d p (make_session (init d (Some p)))) = Inl e"
      by blast
    then have "worker_ps srv (init d (Some p)) (d, p) = Inr (zero_row d p)"
      by (rule worker_ps_failed)
    then show "task_row srv init (d, p) = zero_row d p"
      by (simp add: task_row_def)
  next
    fix k assume k: "k \<in> set DISTRICT_IDS"
    from district_rows_head [OF perm, of srv init k]
    obtain row where row: "row \<in> set (district_rows srv init ac k)" "take 1 row = [I k]"
      by (cases "district_rows srv init ac k") auto
    from row(1) k have "row \<in> set (main srv init ac)"
      by (auto simp: main_def)
    with row(2) show "\<exists>row \<in> set (main srv init ac). take 1 row = [I k]"
      by blast
  qed
  have F: "\<forall>k \<in> set DISTRICT_IDS. set (district_rows srv init ac k) \<subseteq> set (main srv init ac)"
    by (auto simp: main_def)
  have G: "mset (tl (main srv init ac))
       = sum_list (map (\<lambda>k. mset (district_rows srv init ac k)) DISTRICT_IDS)"
    by (rule main_rows)
  from A B C D E F G show ?thesis by blast
qed

theorem failures_become_zero_rows_witness:
  "(\<forall>ts :: (int \<times> string) list. mset (rev ts) = mset ts)
   \<and> discovered_stations station_site station_init 3 = [''12'', ''7'']
   \<and> (case fst (fetch_counts_for_ps station_site 3 ''7'' (make_session (station_init 3 (Some ''7'')))) of
         Inl e \<Rightarrow> e = RequestException | Inr c \<Rightarrow> False)
   \<and> length (district_rows station_site station_init rev 3) = 2
   \<and> [I 3, S ''7''] @ replicate 144 (I 0) \<in> set (district_rows station_site station_init rev 3)
   \<and> (\<exists>row \<in> set (district_rows station_site station_init rev 3).
         take 2 row = [I 3, S ''12''] \<and> row ! 114 = I 1)
   \<and> 3 \<in> set DISTRICT_IDS
   \<and> [I 3, S ''7''] @ replicate 144 (I 0) \<in> set (main station_site station_init rev)
   \<and> (case fst (fetch_counts_for_ps down_site 3 ''7'' (make_session ())) of
         Inl e \<Rightarrow> e = RequestException | Inr c \<Rightarrow> False)
   \<and> worker_ps down_site () (3, ''7'') = Inr ([I 3, S ''7''] @ replicate 144 (I 0))
   \<and> fst (get_ps_for_district down_site 3 (make_session ())) = Inl RequestException
   \<and> district_rows down_site (\<lambda>d p. ()) rev 3 = [[I 3, S []] @ replicate 144 (I 0)]
   \<and> fst (get_ps_for_district three_pages 5 (make_session ())) = Inr []
   \<and> district_rows three_pages (\<lambda>d p. ()) rev 5 = [[I 5, S []] @ replicate 144 (I 0)]
   \<and> (\<exists>row \<in> set (main down_site (\<lambda>d p. ()) rev). take 1 row = [I 38])"
proof -
  note site = failures_become_zero_rows [of station_site 3 "''7''" "False" station_init rev]
  have perm: "\<forall>ts :: (int \<times> string) list. mset (rev ts) = mset ts"
    by simp
  have disc: "discovered_stations station_site station_init 3 = [''12'', ''7'']"
    by code_simp
  have fails: "case fst (fetch_counts_for_ps station_site 3 ''7''
                    (make_session (station_init 3 (Some ''7'')))) of
                 Inl e \<Rightarrow> e = RequestException | Inr c \<Rightarrow> False"
    by code_simp
  then have failed: "\<exists>e. fst (fetch_counts_for_ps station_site 3 ''7''
                    (make_session (station_init 3 (Some ''7'')))) = Inl e"
    by (cases "fst (fetch_counts_for_ps station_site 3 ''7''
                    (make_session (station_init 3 (Some ''7''))))") simp_all
  from site perm disc have len: "length (district_rows station_site station_init rev 3) = 2"
    by simp
  have m7: "''7'' \<in> set (discovered_stations station_site station_init 3)"
    and m12: "''12'' \<in> set (discovered_stations station_site station_init 3)"
    by (simp_all add: disc)
  from site perm m7 failed
  have z7: "task_row station_site station_init (3, ''7'') = zero_row 3 ''7''"
    by blast
  from site perm m7
  have "task_row station_site station_init (3, ''7'')
          \<in> set (district_rows station_site station_init rev 3)"
    by blast
  with z7 have "zero_row 3 ''7'' \<in> set (district_rows station_site station_init rev 3)"
    by simp
  moreover from site have z: "zero_row 3 ''7'' = [I 3, S ''7''] @ replicate 144 (I 0)"
    by blast
  ultimately have in7: "[I 3, S ''7''] @ replicate 144 (I 0)
                          \<in> set (district_rows station_site station_init rev 3)"
    by simp
  from site perm m12
  have w12: "worker_ps station_site (station_init 3 (Some ''12'')) (3, ''12'')
               = Inr (task_row station_site station_init (3, ''12''))"
    and in12: "task_row station_site station_init (3, ''12'')
                 \<in> set (district_rows station_site station_init rev 3)"
    by blast+
  have rows12: "ingested_rows (snd (fetch_counts_for_ps station_site 3 ''12''
                   (make_session (station_init 3 (Some ''12'')))))
                = [[''3'', ''C'', ''07/05/2023'']]"
    by code_simp
  have b12: "row_bucket [''3'', ''C'', ''07/05/2023''] = Some (2023, 5)"
    by code_simp
  have k112: "buckets ! 112 = (2023, 5)"
    by (simp add: nth_buckets START_YEAR_def)
  have l112: "112 < length buckets"
    by (simp add: length_buckets)
  from w12 have t12: "task_row station_site station_init (3, ''12'')
          = [I 3, S ''12''] @
            map (\<lambda>k. I (int (length (filter (\<lambda>r. row_bucket r = Some k)
                     [[''3'', ''C'', ''07/05/2023'']])))) buckets"
    by (simp add: worker_ps_row rows12)
  then have "task_row station_site station_init (3, ''12'') ! (2 + 112)
          = I (int (length (filter (\<lambda>r. row_bucket r = Some (buckets ! 112))
                     [[''3'', ''C'', ''07/05/2023'']])))"
    using l112 by (simp del: upt.simps)
  then have r114: "task_row station_site station_init (3, ''12'') ! 114 = I 1"
    by (simp add: k112 b12)
  from t12 have h12: "take 2 (task_row station_site station_init (3, ''12'')) = [I 3, S ''12'']"
    by simp
  from in12 h12 r114
  have sib: "\<exists>row \<in> set (district_rows station_site station_init rev 3).
               take 2 row = [I 3, S ''12''] \<and> row ! 114 = I 1"
    by blast
  have d3: "3 \<in> set DISTRICT_IDS"
    by (simp add: DISTRICT_IDS_def)
  from site d3 in7
  have main7: "[I 3, S ''7''] @ replicate 144 (I 0) \<in> set (main station_site station_init rev)"
    by blast
  have a: "case fst (fetch_counts_for_ps down_site 3 ''7'' (make_session ())) of
             Inl e \<Rightarrow> e = RequestException | Inr c \<Rightarrow> False"
    by code_simp
  have b: "fst (get_ps_for_district down_site 3 (make_session ())) = Inl RequestException"
    by code_simp
  have c: "fst (get_ps_for_district three_pages 5 (make_session ())) = Inr []"
    by code_simp
  have e: "38 \<in> set DISTRICT_IDS"
    by (simp add: DISTRICT_IDS_def)
  note down = failures_become_zero_rows [of down_site 3 "''7''" "()" "\<lambda>d p. ()" rev]
  note up = failures_become_zero_rows [of three_pages 5 "[]" "()" "\<lambda>d p. ()" rev]
  from down a have f: "worker_ps down_site () (3, ''7'') = Inr ([I 3, S ''7''] @ replicate 144 (I 0))"
    by (cases "fst (fetch_counts_for_ps down_site 3 ''7'' (make_session ()))") simp_all
  from down b have g: "district_rows down_site (\<lambda>d p. ()) rev 3 = [[I 3, S []] @ replicate 144 (I 0)]"
    by (simp add: zero_row_def length_MONTH_COLS)
  from up c have h: "district_rows three_pages (\<lambda>d p. ()) rev 5 = [[I 5, S []] @ replicate 144 (I 0)]"
    by (simp add: zero_row_def length_MONTH_COLS)
  from down perm e have i: "\<exists>row \<in> set (main down_site (\<lambda>d p. ()) rev). take 1 row = [I 38]"
    by blast
  from perm disc fails len in7 sib d3 main7 a f b g c h i show ?thesis
    by (intro conjI)
qed

end
